theory Spec2Isabelle
  imports Complex_Main "HOL-Library.Monad_Syntax"
begin

section \<open>ISO2DFD: the 2D finite-difference wave propagation sample (iso2dfd.cpp)\<close>

text \<open>
  The embedding follows \<^verbatim>\<open>src/Compiler/iso2dfd_dpcpp/src/iso2dfd.cpp\<close>.

  \<^item> The four heap arrays of \<^verbatim>\<open>main\<close> are the cells of an explicit store; the functions
    take pointers (cell names) as the C++ functions take \<^verbatim>\<open>float*\<close>, so that the pointer
    swap of the serial driver and the alternation of the arguments of the device kernel
    are what they are in the source.
  \<^item> An access outside an array is undefined behaviour in C++; here it is the result
    \<open>None\<close>, and every loop stops at the first \<open>None\<close>.
  \<^item> \<^verbatim>\<open>float\<close> and \<^verbatim>\<open>double\<close> values are idealised as real numbers: rounding, overflow
    to infinity and NaN are not modelled. What is proved is the data flow of the program
    (which cells are read and written, in which buffer, in which order) and its
    arithmetic in exact numbers.
  \<^item> Sizes and indices are natural numbers. Where the source subtracts unsigned numbers
    the wrap-around is written out (\<open>usub32\<close>, \<open>usub64\<close>), and so is that of the size
    \<open>nsize\<close> in \<^verbatim>\<open>main\<close>; the other products and sums of indices are not wrapped, which
    is what the source computes for grids of fewer than \<open>2^31\<close> cells (\<open>valid_grid\<close>).
\<close>

subsection \<open>Store, loops, unsigned subtraction\<close>

datatype ptr = prev_base | next_base | next_cpu | vel_base

type_synonym store = "ptr \<Rightarrow> real list"

definition rd :: "store \<Rightarrow> ptr \<Rightarrow> nat \<Rightarrow> real option" where
  "rd st p i = (if i < length (st p) then Some (st p ! i) else None)"

definition wr :: "store \<Rightarrow> ptr \<Rightarrow> nat \<Rightarrow> real \<Rightarrow> store option" where
  "wr st p i v = (if i < length (st p) then Some (st(p := (st p)[i := v])) else None)"

text \<open>A \<^verbatim>\<open>for\<close> loop over the values \<open>xs\<close> of its counter, threading the state.\<close>

fun for_each :: "'a list \<Rightarrow> ('a \<Rightarrow> 's \<Rightarrow> 's option) \<Rightarrow> 's \<Rightarrow> 's option" where
  "for_each [] body s = Some s"
| "for_each (x # xs) body s =
     (case body x s of None \<Rightarrow> None | Some s' \<Rightarrow> for_each xs body s')"

text \<open>\<^verbatim>\<open>a - b\<close> on \<^verbatim>\<open>unsigned int\<close> (32 bits) and on \<^verbatim>\<open>size_t\<close> (64 bits).\<close>

definition usub32 :: "nat \<Rightarrow> nat \<Rightarrow> nat" where
  "usub32 a b = nat ((int a - int b) mod 2 ^ 32)"

definition usub64 :: "nat \<Rightarrow> nat \<Rightarrow> nat" where
  "usub64 a b = nat ((int a - int b) mod 2 ^ 64)"

text \<open>
  The counter values of \<^verbatim>\<open>for (int i = lo; i < hi; i++)\<close> where \<open>hi\<close> is a \<^verbatim>\<open>size_t\<close>:
  the comparison converts \<open>i\<close> to \<^verbatim>\<open>size_t\<close>, so a negative \<open>i\<close> is compared as
  \<open>i + 2^64\<close> and the body is not entered at all. In \<^verbatim>\<open>initialize\<close> the start value is
  \<^verbatim>\<open>nRows / 2 - s\<close>, computed on \<^verbatim>\<open>size_t\<close> and converted to \<^verbatim>\<open>int\<close>: for \<open>nRows\<close>
  below \<open>2^31\<close> this is the integer \<open>nRows div 2 - s\<close>, negative when \<open>s\<close> is the larger.
\<close>

definition mixed_range :: "int \<Rightarrow> nat \<Rightarrow> nat list" where
  "mixed_range lo hi = (if nat (lo mod 2 ^ 64) < hi then [nat lo..<hi] else [])"

definition valid_grid :: "nat \<Rightarrow> nat \<Rightarrow> bool" where
  "valid_grid nRows nCols \<longleftrightarrow> 0 < nRows \<and> 0 < nCols \<and> nRows * nCols < 2 ^ 31"

subsection \<open>Constants\<close>

definition DT :: real where "DT = 0.002"
definition DXY :: real where "DXY = 20.0"
definition HALF_LENGTH :: nat where "HALF_LENGTH = 1"

definition wavelet :: "real list" where
  "wavelet = [0.016387336, -0.041464937, -0.067372555, 0.386110067,
              0.812723635, 0.416998396,  0.076488599,  -0.059434419,
              0.023680172, 0.005611435,  0.001823209,  -0.000720549]"

subsection \<open>initialize\<close>

definition initialize :: "ptr \<Rightarrow> ptr \<Rightarrow> ptr \<Rightarrow> nat \<Rightarrow> nat \<Rightarrow> store \<Rightarrow> store option" where
  "initialize ptr_prev ptr_next ptr_vel nRows nCols st0 = do {
     st1 \<leftarrow> for_each [0..<nRows] (\<lambda>i st.
       let offset = i * nCols in
       for_each [0..<nCols] (\<lambda>k st. do {
           st \<leftarrow> wr st ptr_prev (offset + k) 0;
           st \<leftarrow> wr st ptr_next (offset + k) 0;
           wr st ptr_vel (offset + k) (1500 * 1500)
         }) st) st0;
     for_each (rev [0..<12]) (\<lambda>s st.
       for_each (mixed_range (int (nRows div 2) - int s) (nRows div 2 + s)) (\<lambda>i st.
         let offset = i * nCols in
         for_each (mixed_range (int (nCols div 2) - int s) (nCols div 2 + s)) (\<lambda>k st.
             wr st ptr_prev (offset + k) (wavelet ! s)
           ) st) st) st1
   }"

subsection \<open>within_epsilon\<close>

text \<open>
  One line of \<^verbatim>\<open>error_diff.txt\<close>: the two counters, the two values and their distance.
\<close>

record diag =
  d_ix :: nat
  d_iy :: nat
  d_output :: real
  d_reference :: real
  d_difference :: real

text \<open>
  The state of the scan: the two pointers (as offsets from their start), the flag, the
  running sum and the lines written so far.
\<close>

record scan =
  output_off :: nat
  reference_off :: nat
  error :: bool
  norm2 :: real
  errFile :: "diag list"

definition rd_buf :: "real list \<Rightarrow> nat \<Rightarrow> real option" where
  "rd_buf xs i = (if i < length xs then Some (xs ! i) else None)"

definition within_epsilon_cell ::
  "real list \<Rightarrow> real list \<Rightarrow> nat \<Rightarrow> nat \<Rightarrow> nat \<Rightarrow> real \<Rightarrow> nat \<Rightarrow> nat \<Rightarrow> scan \<Rightarrow> scan option" where
  "within_epsilon_cell output reference dimx dimy radius delta iy ix s = do {
     s \<leftarrow> (if ix \<ge> radius \<and> ix < usub64 dimx radius \<and> iy \<ge> radius \<and> iy < usub64 dimy radius
           then do {
             r \<leftarrow> rd_buf reference (reference_off s);
             out \<leftarrow> rd_buf output (output_off s);
             let difference = \<bar>r - out\<bar>;
             let s = s\<lparr>norm2 := norm2 s + difference * difference\<rparr>;
             Some (if difference > delta
                   then s\<lparr>error := True,
                          errFile := errFile s @
                            [\<lparr>d_ix = ix, d_iy = iy, d_output = out, d_reference = r,
                              d_difference = difference\<rparr>]\<rparr>
                   else s)
           }
           else Some s);
     Some (s\<lparr>output_off := output_off s + 1, reference_off := reference_off s + 1\<rparr>)
   }"

text \<open>
  The source returns \<open>error\<close> only; the lines of the file and the norm it prints are kept
  in the result, since the specification speaks about them.
\<close>

definition within_epsilon ::
  "real list \<Rightarrow> real list \<Rightarrow> nat \<Rightarrow> nat \<Rightarrow> nat \<Rightarrow> real \<Rightarrow> scan option" where
  "within_epsilon output reference dimx dimy radius delta = do {
     s \<leftarrow> for_each [0..<dimy] (\<lambda>iy.
            for_each [0..<dimx] (within_epsilon_cell output reference dimx dimy radius delta iy))
          \<lparr>output_off = 0, reference_off = 0, error = False, norm2 = 0, errFile = []\<rparr>;
     Some (s\<lparr>norm2 := sqrt (norm2 s)\<rparr>)
   }"

subsection \<open>The serial driver\<close>

text \<open>The body of the innermost loop, at row \<open>i\<close> and column \<open>j\<close>.\<close>

definition cpu_point ::
  "ptr \<Rightarrow> ptr \<Rightarrow> ptr \<Rightarrow> real \<Rightarrow> nat \<Rightarrow> nat \<Rightarrow> nat \<Rightarrow> store \<Rightarrow> store option" where
  "cpu_point next prev vel dtDIVdxy nCols i j st = do {
     let gid = j + (i * nCols);
     let value = 0;
     p_r \<leftarrow> rd st prev (gid + 1);
     p_c \<leftarrow> rd st prev gid;
     p_l \<leftarrow> rd st prev (gid - 1);
     let value = value + (p_r - 2 * p_c + p_l);
     p_d \<leftarrow> rd st prev (gid + nCols);
     p_u \<leftarrow> rd st prev (gid - nCols);
     let value = value + (p_d - 2 * p_c + p_u);
     v \<leftarrow> rd st vel gid;
     let value = value * (dtDIVdxy * v);
     n \<leftarrow> rd st next gid;
     wr st next gid (2 * p_c - n + value)
   }"

text \<open>
  One pass of the loop on \<open>k\<close>: the sweep, then the swap of the two local pointers. The
  loop state is the two local pointers and the store.
\<close>

definition cpu_step ::
  "ptr \<Rightarrow> real \<Rightarrow> nat \<Rightarrow> nat \<Rightarrow> nat \<Rightarrow> ptr \<times> ptr \<times> store \<Rightarrow> (ptr \<times> ptr \<times> store) option" where
  "cpu_step vel dtDIVdxy nRows nCols k = (\<lambda>(next, prev, st). do {
     st \<leftarrow> for_each [1..<usub32 nRows HALF_LENGTH] (\<lambda>i.
             for_each [1..<usub32 nCols HALF_LENGTH] (\<lambda>j.
               cpu_point next prev vel dtDIVdxy nCols i j)) st;
     let swap = next;
     let next = prev;
     let prev = swap;
     Some (next, prev, st)
   })"

definition iso_2dfd_iteration_cpu ::
  "ptr \<Rightarrow> ptr \<Rightarrow> ptr \<Rightarrow> real \<Rightarrow> nat \<Rightarrow> nat \<Rightarrow> nat \<Rightarrow> store \<Rightarrow> store option" where
  "iso_2dfd_iteration_cpu next prev vel dtDIVdxy nRows nCols nIterations st =
     map_option (\<lambda>(next, prev, st). st)
       (for_each [0..<nIterations] (cpu_step vel dtDIVdxy nRows nCols) (next, prev, st))"

subsection \<open>The device kernel and its dispatch\<close>

definition iso_2dfd_iteration_global ::
  "nat \<times> nat \<Rightarrow> ptr \<Rightarrow> ptr \<Rightarrow> ptr \<Rightarrow> real \<Rightarrow> nat \<Rightarrow> nat \<Rightarrow> store \<Rightarrow> store option" where
  "iso_2dfd_iteration_global it next prev vel dtDIVdxy nRows nCols st = (
     let gidRow = fst it;
         gidCol = snd it;
         gid = gidRow * nCols + gidCol
     in
     if (gidCol \<ge> HALF_LENGTH \<and> gidCol < usub32 nCols HALF_LENGTH) \<and>
        (gidRow \<ge> HALF_LENGTH \<and> gidRow < usub32 nRows HALF_LENGTH)
     then do {
       let value = 0;
       p_r \<leftarrow> rd st prev (gid + 1);
       p_c \<leftarrow> rd st prev gid;
       p_l \<leftarrow> rd st prev (gid - 1);
       let value = value + (p_r - 2 * p_c + p_l);
       p_d \<leftarrow> rd st prev (gid + nCols);
       p_u \<leftarrow> rd st prev (gid - nCols);
       let value = value + (p_d - 2 * p_c + p_u);
       v \<leftarrow> rd st vel gid;
       let value = value * (dtDIVdxy * v);
       n \<leftarrow> rd st next gid;
       wr st next gid (2 * p_c - n + value)
     }
     else Some st)"

text \<open>
  \<^verbatim>\<open>parallel_for\<close> over a two-dimensional range, embedded sequentially: the work items
  run one after the other, in row-major order (lemma \<open>dispatch_any_order\<close> below shows
  that any other order gives the same store). The SYCL buffers wrap the host arrays and are
  written back when they go out of scope; here the kernel works on the arrays themselves.
\<close>

definition parallel_for ::
  "nat \<times> nat \<Rightarrow> (nat \<times> nat \<Rightarrow> store \<Rightarrow> store option) \<Rightarrow> store \<Rightarrow> store option" where
  "parallel_for global_range work_item st =
     for_each (List.product [0..<fst global_range] [0..<snd global_range]) work_item st"

text \<open>The command group submitted at time step \<open>k\<close>.\<close>

definition submit :: "real \<Rightarrow> nat \<Rightarrow> nat \<Rightarrow> nat \<Rightarrow> store \<Rightarrow> store option" where
  "submit dtDIVdxy nRows nCols k st = (
     let global_range = (nRows, nCols) in
     if k mod 2 = 0
     then parallel_for global_range (\<lambda>it.
            iso_2dfd_iteration_global it next_base prev_base vel_base dtDIVdxy nRows nCols) st
     else parallel_for global_range (\<lambda>it.
            iso_2dfd_iteration_global it prev_base next_base vel_base dtDIVdxy nRows nCols) st)"

text \<open>The loop over the time steps in \<^verbatim>\<open>main\<close>, inside the scope of the buffers.\<close>

definition device_loop :: "real \<Rightarrow> nat \<Rightarrow> nat \<Rightarrow> nat \<Rightarrow> store \<Rightarrow> store option" where
  "device_loop dtDIVdxy nRows nCols nIterations st =
     for_each [0..<nIterations] (submit dtDIVdxy nRows nCols) st"

subsection \<open>main\<close>

text \<open>
  What a finished run leaves behind: the verdict it prints (\<open>reported_error\<close> is true for
  ``Final wavefields from device and CPU are different: Error'' and false for
  ``\<dots> are equivalent: Success''), the two binary dumps and the lines of
  \<^verbatim>\<open>error_diff.txt\<close>. The outcome of \<^verbatim>\<open>main\<close> is either the usage message with the
  return value, or the end by \<^verbatim>\<open>std::terminate\<close> on an exception that nothing catches, or
  a finished run with its return value.
\<close>

record run_output =
  reported_error :: bool
  wavefield_snapshot :: "real list"
  wavefield_snapshot_cpu :: "real list"
  error_diff :: "diag list"

datatype outcome = Usage int | Aborted | Finished int run_output

text \<open>
  \<^verbatim>\<open>std::stoi\<close> belongs to the C++ library and is a parameter of \<open>main\<close>, with
  \<open>stoi s = None\<close> when it throws; \<open>std_stoi\<close> below is the function of the library. An
  argument that is absent is a null \<^verbatim>\<open>argv[i]\<close>, from which the \<^verbatim>\<open>std::string\<close>
  cannot be built; as with libstdc++, this throws inside the \<^verbatim>\<open>try\<close> block too.
\<close>

definition read_arg :: "(string \<Rightarrow> int option) \<Rightarrow> string list \<Rightarrow> nat \<Rightarrow> int option" where
  "read_arg stoi argv i = (if i < length argv then stoi (argv ! i) else None)"

text \<open>
  \<^verbatim>\<open>new float[nsize]\<close> returns memory of unknown content: \<open>fresh p i\<close> is what array \<open>p\<close>
  holds at index \<open>i\<close> before \<^verbatim>\<open>initialize\<close> runs.
\<close>

definition new_arrays :: "(ptr \<Rightarrow> nat \<Rightarrow> real) \<Rightarrow> nat \<Rightarrow> store" where
  "new_arrays fresh nsize = (\<lambda>p. map (fresh p) [0..<nsize])"

text \<open>Fresh memory that happens to hold zeros.\<close>

definition blank :: "ptr \<Rightarrow> nat \<Rightarrow> real" where
  "blank p i = 0"

text \<open>
  \<open>nsize\<close> is a product of two \<^verbatim>\<open>size_t\<close> values. \<^verbatim>\<open>new float[nsize]\<close> throws when the size
  in bytes, \<open>nsize * 4\<close>, does not fit into a \<^verbatim>\<open>size_t\<close>; \<^verbatim>\<open>main\<close> does not catch this
  and the program is terminated. Memory that runs out for a smaller request is not
  modelled.
\<close>

definition main ::
  "(string \<Rightarrow> int option) \<Rightarrow> (ptr \<Rightarrow> nat \<Rightarrow> real) \<Rightarrow> string list \<Rightarrow> outcome option" where
  "main stoi fresh argv = (
     case (read_arg stoi argv 1, read_arg stoi argv 2, read_arg stoi argv 3) of
       (Some a1, Some a2, Some a3) \<Rightarrow> do {
         let nRows = nat (a1 mod 2 ^ 64);
         let nCols = nat (a2 mod 2 ^ 64);
         let nIterations = nat (a3 mod 2 ^ 32);
         let nsize = (nRows * nCols) mod 2 ^ 64;
         if 2 ^ 64 \<le> nsize * 4 then Some Aborted
         else do {
           let st = new_arrays fresh nsize;
           let dtDIVdxy = (DT * DT) / (DXY * DXY);
           st \<leftarrow> initialize prev_base next_base vel_base nRows nCols st;
           st \<leftarrow> device_loop dtDIVdxy nRows nCols nIterations st;
           let snapshot = take nsize (st next_base);
           st \<leftarrow> initialize prev_base next_cpu vel_base nRows nCols st;
           st \<leftarrow> iso_2dfd_iteration_cpu next_cpu prev_base vel_base dtDIVdxy nRows nCols
                  nIterations st;
           s \<leftarrow> within_epsilon (st next_base) (st next_cpu) nRows nCols HALF_LENGTH 0.1;
           let snapshot_cpu = take nsize (st next_cpu);
           Some (Finished (if error s then 1 else 0)
                   \<lparr>reported_error = error s,
                    wavefield_snapshot = snapshot, wavefield_snapshot_cpu = snapshot_cpu,
                    error_diff = errFile s\<rparr>)
         }
       }
     | _ \<Rightarrow> Some (Usage 1))"

text \<open>
  \<^verbatim>\<open>std::stoi\<close> with its default arguments, after the C++ standard and \<^verbatim>\<open>strtol\<close> in base
  10, on which it is defined: white space is skipped, then an optional sign is read, then
  the longest run of decimal digits; what follows the digits is ignored. It throws
  \<^verbatim>\<open>std::invalid_argument\<close> when there is no digit to read and \<^verbatim>\<open>std::out_of_range\<close> when
  the number does not fit into an \<^verbatim>\<open>int\<close> of 32 bits; both are the result \<open>None\<close>.
\<close>

definition isspace :: "char \<Rightarrow> bool" where
  "isspace c \<longleftrightarrow> of_char c \<in> {32, 9, 10, 11, 12, 13 :: nat}"

definition isdigit :: "char \<Rightarrow> bool" where
  "isdigit c \<longleftrightarrow> 48 \<le> (of_char c :: nat) \<and> (of_char c :: nat) \<le> 57"

definition decimal :: "string \<Rightarrow> int" where
  "decimal ds = foldl (\<lambda>a c. 10 * a + (of_char c - 48)) 0 ds"

definition std_stoi :: "string \<Rightarrow> int option" where
  "std_stoi str = (
     let s = dropWhile isspace str;
         negative = (s \<noteq> [] \<and> hd s = CHR ''-'');
         s = (if s \<noteq> [] \<and> (hd s = CHR ''-'' \<or> hd s = CHR ''+'') then tl s else s);
         ds = takeWhile isdigit s;
         v = (if negative then - decimal ds else decimal ds)
     in if ds = [] then None
        else if v < - (2 ^ 31) \<or> 2 ^ 31 - 1 < v then None
        else Some v)"

subsection \<open>Reference functions\<close>

text \<open>
  The functions of this subsection are not translations of source functions: they say in
  closed form what the loops above compute, and the lemmas below connect the two.

  A point \<open>(row, col)\<close> is interior when it is at least \<open>HALF_LENGTH\<close> away from every
  edge of the grid; the other points are the halo.
\<close>

definition interior :: "nat \<Rightarrow> nat \<Rightarrow> nat \<Rightarrow> nat \<Rightarrow> bool" where
  "interior nRows nCols row col \<longleftrightarrow>
     HALF_LENGTH \<le> row \<and> row < nRows - HALF_LENGTH \<and>
     HALF_LENGTH \<le> col \<and> col < nCols - HALF_LENGTH"

text \<open>The update of the specification (section 4.1), on the contents of the three arrays.\<close>

definition leapfrog :: "real list \<Rightarrow> real list \<Rightarrow> real list \<Rightarrow> real \<Rightarrow> nat \<Rightarrow> nat \<Rightarrow> real" where
  "leapfrog nxt prv vel dtDIVdxy nCols gid =
     2 * prv ! gid - nxt ! gid +
     ((prv ! (gid + 1) - 2 * prv ! gid + prv ! (gid - 1)) +
      (prv ! (gid + nCols) - 2 * prv ! gid + prv ! (gid - nCols))) * dtDIVdxy * vel ! gid"

text \<open>One sweep over the grid: the new content of the array in the role of \<open>next\<close>.\<close>

definition sweep :: "real \<Rightarrow> nat \<Rightarrow> nat \<Rightarrow> real list \<Rightarrow> real list \<Rightarrow> real list \<Rightarrow> real list" where
  "sweep dtDIVdxy nRows nCols vel nxt prv =
     map (\<lambda>gid. if interior nRows nCols (gid div nCols) (gid mod nCols)
                then leapfrog nxt prv vel dtDIVdxy nCols gid else nxt ! gid)
         [0..<nRows * nCols]"

text \<open>
  \<open>evolve \<dots> k (A, B)\<close>: the contents of the two arrays after \<open>k\<close> time steps, where
  \<open>A\<close> is the array that is \<open>next\<close> in step 0. Even steps write the first array, odd
  steps the second.
\<close>

fun evolve ::
  "real \<Rightarrow> nat \<Rightarrow> nat \<Rightarrow> real list \<Rightarrow> nat \<Rightarrow> real list \<times> real list \<Rightarrow> real list \<times> real list" where
  "evolve dtDIVdxy nRows nCols vel 0 AB = AB"
| "evolve dtDIVdxy nRows nCols vel (Suc k) AB = (
     let (A, B) = evolve dtDIVdxy nRows nCols vel k AB in
     if even k then (sweep dtDIVdxy nRows nCols vel A B, B)
     else (A, sweep dtDIVdxy nRows nCols vel B A))"

text \<open>The body of the innermost loop of the serial driver, under the guard of the kernel.\<close>

definition guarded_point ::
  "ptr \<Rightarrow> ptr \<Rightarrow> ptr \<Rightarrow> real \<Rightarrow> nat \<Rightarrow> nat \<Rightarrow> nat \<Rightarrow> nat \<Rightarrow> store \<Rightarrow> store option" where
  "guarded_point nxt prv vel dtDIVdxy nRows nCols i j st =
     (if interior nRows nCols i j then cpu_point nxt prv vel dtDIVdxy nCols i j st else Some st)"

text \<open>
  The wavelet loop of \<^verbatim>\<open>initialize\<close> in closed form: the cells that the pass for \<open>s\<close>
  writes, the array after that pass, and the array after all twelve passes over zeros.
\<close>

definition in_square :: "nat \<Rightarrow> nat \<Rightarrow> nat \<Rightarrow> nat \<Rightarrow> nat \<Rightarrow> bool" where
  "in_square nRows nCols s i k \<longleftrightarrow>
     i \<in> set (mixed_range (int (nRows div 2) - int s) (nRows div 2 + s)) \<and>
     k \<in> set (mixed_range (int (nCols div 2) - int s) (nCols div 2 + s))"

definition wavelet_layer :: "nat \<Rightarrow> nat \<Rightarrow> nat \<Rightarrow> real list \<Rightarrow> real list" where
  "wavelet_layer nRows nCols s buf =
     map (\<lambda>g. if in_square nRows nCols s (g div nCols) (g mod nCols) then wavelet ! s
               else buf ! g) [0..<length buf]"

definition initial_prev :: "nat \<Rightarrow> nat \<Rightarrow> real list" where
  "initial_prev nRows nCols =
     fold (wavelet_layer nRows nCols) (rev [0..<12]) (replicate (nRows * nCols) 0)"

text \<open>
  The scan of \<^verbatim>\<open>within_epsilon\<close> in closed form. Position \<open>p\<close> of the two arrays is met
  with the counters \<open>ix = p mod dimx\<close> and \<open>iy = p div dimx\<close>; it is compared when both
  counters are at least \<open>radius\<close> away from the ends of their ranges.
\<close>

definition compared :: "nat \<Rightarrow> nat \<Rightarrow> nat \<Rightarrow> nat \<Rightarrow> bool" where
  "compared dimx dimy radius p \<longleftrightarrow>
     radius \<le> p mod dimx \<and> p mod dimx + radius < dimx \<and>
     radius \<le> p div dimx \<and> p div dimx + radius < dimy"

definition distance :: "real list \<Rightarrow> real list \<Rightarrow> nat \<Rightarrow> real" where
  "distance output reference p = \<bar>reference ! p - output ! p\<bar>"

definition diag_at :: "real list \<Rightarrow> real list \<Rightarrow> nat \<Rightarrow> nat \<Rightarrow> diag" where
  "diag_at output reference dimx p =
     \<lparr>d_ix = p mod dimx, d_iy = p div dimx, d_output = output ! p,
      d_reference = reference ! p, d_difference = distance output reference p\<rparr>"

definition scan_after ::
  "real list \<Rightarrow> real list \<Rightarrow> nat \<Rightarrow> nat \<Rightarrow> nat \<Rightarrow> real \<Rightarrow> nat \<Rightarrow> scan" where
  "scan_after output reference dimx dimy radius delta n = (
     let cells = filter (compared dimx dimy radius) [0..<n];
         bad = filter (\<lambda>p. delta < distance output reference p) cells
     in \<lparr>output_off = n, reference_off = n, error = (bad \<noteq> []),
         norm2 = sum_list (map (\<lambda>p. distance output reference p * distance output reference p) cells),
         errFile = map (diag_at output reference dimx) bad\<rparr>)"

text \<open>The content of one cell of an array after a computation that may have failed.\<close>

definition cell_of :: "store option \<Rightarrow> ptr \<Rightarrow> nat \<Rightarrow> real option" where
  "cell_of r p i = Option.bind r (\<lambda>st. rd st p i)"

section \<open>Lemmas about the loops\<close>

subsection \<open>Loops over lists and grids\<close>

lemma for_each_append:
  "for_each (xs @ ys) body s =
     (case for_each xs body s of None \<Rightarrow> None | Some s' \<Rightarrow> for_each ys body s')"
  by (induction xs arbitrary: s) (auto split: option.splits)

lemma for_each_snoc:
  "for_each (xs @ [x]) body s =
     (case for_each xs body s of None \<Rightarrow> None | Some s' \<Rightarrow> body x s')"
  by (simp add: for_each_append split: option.splits)

lemma for_each_cong:
  "(\<And>x s. x \<in> set xs \<Longrightarrow> f x s = g x s) \<Longrightarrow> for_each xs f s = for_each xs g s"
  by (induction xs arbitrary: s) (auto split: option.splits)

lemma for_each_map_s: "for_each (map h xs) body s = for_each xs (\<lambda>x. body (h x)) s"
  by (induction xs arbitrary: s) (auto split: option.splits)

lemma for_each_map: "for_each (map h xs) body = for_each xs (\<lambda>x. body (h x))"
  by (rule ext) (rule for_each_map_s)

lemma for_each_concat:
  "for_each (concat (map h xs)) body s = for_each xs (\<lambda>x. for_each (h x) body) s"
  by (induction xs arbitrary: s) (auto simp: for_each_append split: option.splits)

lemma for_each_skip:
  "(\<And>x s. x \<in> set xs \<Longrightarrow> \<not> P x \<Longrightarrow> body x s = Some s) \<Longrightarrow>
   for_each xs body s = for_each (filter P xs) body s"
  by (induction xs arbitrary: s) (auto split: option.splits)

lemma rows_upt: "concat (map (\<lambda>i. map (\<lambda>k. i * c + k) [0..<c]) [0..<n]) = [0..<n * c]"
proof (induction n)
  case 0
  show ?case by simp
next
  case (Suc n)
  have "map (\<lambda>k. n * c + k) [0..<c] = [n * c..<n * c + c]"
    by (simp add: map_add_upt add.commute)
  moreover have "[0..<n * c] @ [n * c..<n * c + c] = [0..<n * c + c]"
    by (metis le_add1 upt_add_eq_append add_0)
  ultimately show ?case using Suc by (simp add: add.commute)
qed

lemma for_each_grid:
  "for_each [0..<n] (\<lambda>i. for_each [0..<c] (\<lambda>k. body (i * c + k))) s = for_each [0..<n * c] body s"
proof -
  have "for_each [0..<n * c] body s
      = for_each (concat (map (\<lambda>i. map (\<lambda>k. i * c + k) [0..<c]) [0..<n])) body s"
    by (simp only: rows_upt)
  also have "\<dots> = for_each [0..<n] (\<lambda>i. for_each [0..<c] (\<lambda>k. body (i * c + k))) s"
    by (simp add: for_each_concat for_each_map)
  finally show ?thesis by simp
qed

lemma for_each_grid2:
  assumes "0 < c"
  shows "for_each [0..<n] (\<lambda>i. for_each [0..<c] (\<lambda>k. body i k)) s
       = for_each [0..<n * c] (\<lambda>g. body (g div c) (g mod c)) s"
proof -
  have "for_each [0..<n] (\<lambda>i. for_each [0..<c] (\<lambda>k. body i k)) s
      = for_each [0..<n] (\<lambda>i. for_each [0..<c] (\<lambda>k. body ((i * c + k) div c) ((i * c + k) mod c))) s"
    by (rule for_each_cong, rule for_each_cong) (use assms in simp)
  then show ?thesis
    using for_each_grid [of n c "\<lambda>g. body (g div c) (g mod c)" s] by simp
qed

lemma usub32_eq: "b \<le> a \<Longrightarrow> a < 2 ^ 32 \<Longrightarrow> usub32 a b = a - b"
  unfolding usub32_def by (simp add: nat_diff_distrib' of_nat_diff)

lemma usub64_eq: "b \<le> a \<Longrightarrow> a < 2 ^ 64 \<Longrightarrow> usub64 a b = a - b"
  unfolding usub64_def by (simp add: nat_diff_distrib' of_nat_diff)

lemma mixed_range_eq:
  assumes "- (2 ^ 63) \<le> lo" "lo < 2 ^ 63" "hi \<le> 2 ^ 63"
  shows "mixed_range lo hi = (if lo < 0 then [] else [nat lo..<hi])"
proof (cases "lo < 0")
  case True
  have "(lo + 2 ^ 64) mod 2 ^ 64 = lo + 2 ^ 64"
    using True assms by (intro mod_pos_pos_trivial) auto
  then have "lo mod 2 ^ 64 = lo + 2 ^ 64"
    by simp
  moreover have "int hi \<le> int (2 ^ 63)" using assms(3) by (simp only: of_nat_le_iff)
  then have "int hi \<le> 2 ^ 63" by simp
  ultimately have "int hi \<le> lo mod 2 ^ 64" using assms(1) by simp
  then have "nat (lo mod 2 ^ 64) \<ge> hi" by linarith
  then show ?thesis using True by (simp add: mixed_range_def)
next
  case False
  then have "lo mod 2 ^ 64 = lo" using assms by simp
  then show ?thesis using False by (simp add: mixed_range_def)
qed

subsection \<open>One grid point\<close>

lemma for_each_noop:
  "(\<And>x s. x \<in> set xs \<Longrightarrow> body x s = Some s) \<Longrightarrow> for_each xs body s = Some s"
  by (induction xs arbitrary: s) auto

lemma for_each_product:
  "for_each (List.product xs ys) body s = for_each xs (\<lambda>x. for_each ys (\<lambda>y. body (x, y))) s"
  by (induction xs arbitrary: s) (auto simp: for_each_append for_each_map split: option.splits)

lemma filter_band: "b \<le> n \<Longrightarrow> filter (\<lambda>i. a \<le> i \<and> i < b) [0..<n] = [a..<b]"
  by (rule sorted_distinct_set_unique) (auto intro: sorted_wrt_filter)

lemma grid_index_less: "i < n \<Longrightarrow> k < c \<Longrightarrow> i * c + k < n * (c::nat)"
proof -
  assume a: "i < n" "k < c"
  then have "i * c + k < (i + 1) * c" by simp
  also have "\<dots> \<le> n * c" using a by (intro mult_le_mono1) simp
  finally show ?thesis .
qed

lemma cpu_point_eq:
  assumes "length (st nxt) = N" "length (st prv) = N" "length (st vel) = N"
    and "nCols \<le> j + i * nCols" "j + i * nCols + nCols < N" "0 < nCols"
  shows "cpu_point nxt prv vel c nCols i j st =
         Some (st(nxt := (st nxt)[j + i * nCols :=
                 leapfrog (st nxt) (st prv) (st vel) c nCols (j + i * nCols)]))"
proof -
  let ?g = "j + i * nCols"
  have b: "?g < N" "?g + 1 < N" "?g - 1 < N" "?g + nCols < N" "?g - nCols < N"
    using assms(4-6) by arith+
  show ?thesis
    using assms(1-3) b by (simp add: cpu_point_def rd_def wr_def leapfrog_def Let_def mult.assoc)
qed

lemma interior_bounds:
  assumes "interior nRows nCols i j"
  shows "nCols \<le> j + i * nCols" "j + i * nCols + nCols < nRows * nCols" "0 < nCols"
        "i < nRows" "j < nCols"
proof -
  from assms have i: "1 \<le> i" "i + 1 < nRows" and j: "1 \<le> j" "j + 1 < nCols"
    by (auto simp: interior_def HALF_LENGTH_def)
  show "0 < nCols" "i < nRows" "j < nCols" using i j by auto
  from i obtain i' where "i = Suc i'" by (cases i) auto
  then show "nCols \<le> j + i * nCols" by simp
  have "(i + 2) * nCols \<le> nRows * nCols" using i by (intro mult_le_mono1) simp
  then show "j + i * nCols + nCols < nRows * nCols" using j by (simp add: algebra_simps)
qed

lemma kernel_guarded:
  assumes "0 < nRows" "nRows < 2 ^ 32" "0 < nCols" "nCols < 2 ^ 32"
  shows "iso_2dfd_iteration_global (i, j) nxt prv vel c nRows nCols st
       = guarded_point nxt prv vel c nRows nCols i j st"
proof -
  have "usub32 nRows HALF_LENGTH = nRows - HALF_LENGTH" "usub32 nCols HALF_LENGTH = nCols - HALF_LENGTH"
    using assms by (simp_all add: usub32_eq HALF_LENGTH_def)
  then show ?thesis
    by (auto simp: iso_2dfd_iteration_global_def guarded_point_def interior_def cpu_point_def
        Let_def add.commute)
qed

subsection \<open>One sweep\<close>

lemma leapfrog_cong:
  "nxt ! g = nxt' ! g \<Longrightarrow> leapfrog nxt prv vel c nCols g = leapfrog nxt' prv vel c nCols g"
  by (simp add: leapfrog_def)

lemma point_updates:
  assumes "nxt \<noteq> prv" "nxt \<noteq> vel" "distinct gs" "\<forall>g\<in>set gs. g < length (st nxt)"
    and body: "\<And>g s. g \<in> set gs \<Longrightarrow> length (s nxt) = length (st nxt) \<Longrightarrow>
                 s prv = st prv \<Longrightarrow> s vel = st vel \<Longrightarrow>
                 body g s = Some (s(nxt := (s nxt)[g := leapfrog (s nxt) (s prv) (s vel) c nCols g]))"
  shows "for_each gs body st =
         Some (st(nxt := map (\<lambda>g. if g \<in> set gs then leapfrog (st nxt) (st prv) (st vel) c nCols g
                                   else st nxt ! g) [0..<length (st nxt)]))"
  using assms(3-)
proof (induction gs arbitrary: st)
  case Nil
  then show ?case by (simp add: map_nth)
next
  case (Cons g gs)
  let ?u = "leapfrog (st nxt) (st prv) (st vel) c nCols g"
  let ?st1 = "st(nxt := (st nxt)[g := ?u])"
  have len: "length (?st1 nxt) = length (st nxt)" by simp
  have step: "body g st = Some ?st1" by (rule Cons.prems(3)) simp_all
  have IH: "for_each gs body ?st1 =
         Some (?st1(nxt := map (\<lambda>h. if h \<in> set gs then leapfrog (?st1 nxt) (?st1 prv) (?st1 vel) c nCols h
                                   else ?st1 nxt ! h) [0..<length (?st1 nxt)]))"
  proof (rule Cons.IH)
    show "distinct gs" using Cons.prems(1) by simp
    show "\<forall>g\<in>set gs. g < length (?st1 nxt)" using Cons.prems(2) by simp
    fix h s assume "h \<in> set gs" "length (s nxt) = length (?st1 nxt)"
      "s prv = ?st1 prv" "s vel = ?st1 vel"
    then have "h \<in> set (g # gs)" "length (s nxt) = length (st nxt)"
      "s prv = st prv" "s vel = st vel" using assms(1,2) by simp_all
    then show "body h s = Some (s(nxt := (s nxt)[h := leapfrog (s nxt) (s prv) (s vel) c nCols h]))"
      by (rule Cons.prems(3))
  qed
  have "map (\<lambda>h. if h \<in> set gs then leapfrog (?st1 nxt) (?st1 prv) (?st1 vel) c nCols h
                   else ?st1 nxt ! h) [0..<length (st nxt)]
      = map (\<lambda>h. if h \<in> set (g # gs) then leapfrog (st nxt) (st prv) (st vel) c nCols h
                   else st nxt ! h) [0..<length (st nxt)]"
  proof (rule map_cong [OF refl])
    fix h assume "h \<in> set [0..<length (st nxt)]"
    then have h: "h < length (st nxt)" by simp
    show "(if h \<in> set gs then leapfrog (?st1 nxt) (?st1 prv) (?st1 vel) c nCols h else ?st1 nxt ! h)
        = (if h \<in> set (g # gs) then leapfrog (st nxt) (st prv) (st vel) c nCols h else st nxt ! h)"
    proof (cases "h = g")
      case True
      then have "h \<notin> set gs" using Cons.prems(1) by simp
      then show ?thesis using True h by simp
    next
      case False
      have "leapfrog ((st nxt)[g := ?u]) (st prv) (st vel) c nCols h
          = leapfrog (st nxt) (st prv) (st vel) c nCols h"
        by (rule leapfrog_cong) (use False in simp)
      then show ?thesis using False assms(1,2) by simp
    qed
  qed
  then show ?case using step IH len by (simp add: fun_eq_iff)
qed

lemma interior_updates:
  assumes "nxt \<noteq> prv" "nxt \<noteq> vel"
    and len: "length (st nxt) = nRows * nCols" "length (st prv) = nRows * nCols"
             "length (st vel) = nRows * nCols"
    and gs: "distinct gs"
      "set gs = {g. g < nRows * nCols \<and> interior nRows nCols (g div nCols) (g mod nCols)}"
  shows "for_each gs (\<lambda>g. guarded_point nxt prv vel c nRows nCols (g div nCols) (g mod nCols)) st
       = Some (st(nxt := sweep c nRows nCols (st vel) (st nxt) (st prv)))"
proof -
  let ?B = "\<lambda>g. guarded_point nxt prv vel c nRows nCols (g div nCols) (g mod nCols)"
  have "for_each gs ?B st = Some (st(nxt := map (\<lambda>g. if g \<in> set gs
                 then leapfrog (st nxt) (st prv) (st vel) c nCols g else st nxt ! g)
               [0..<length (st nxt)]))"
  proof (rule point_updates [OF assms(1,2) gs(1)])
    show "\<forall>g\<in>set gs. g < length (st nxt)" using len gs(2) by simp
    fix g and s :: store assume g: "g \<in> set gs" and l: "length (s nxt) = length (st nxt)"
      "s prv = st prv" "s vel = st vel"
    then have int: "interior nRows nCols (g div nCols) (g mod nCols)" using gs(2) by simp
    have "cpu_point nxt prv vel c nCols (g div nCols) (g mod nCols) s =
         Some (s(nxt := (s nxt)[g mod nCols + g div nCols * nCols :=
                 leapfrog (s nxt) (s prv) (s vel) c nCols (g mod nCols + g div nCols * nCols)]))"
      using interior_bounds(1-3) [OF int] l len
      by (intro cpu_point_eq [where N = "nRows * nCols"]) simp_all
    then show "?B g s = Some (s(nxt := (s nxt)[g := leapfrog (s nxt) (s prv) (s vel) c nCols g]))"
      using int by (simp add: guarded_point_def)
  qed
  also have "map (\<lambda>g. if g \<in> set gs
                 then leapfrog (st nxt) (st prv) (st vel) c nCols g else st nxt ! g)
               [0..<length (st nxt)]
           = sweep c nRows nCols (st vel) (st nxt) (st prv)"
    unfolding sweep_def len by (rule map_cong [OF refl]) (simp add: gs(2))
  finally show ?thesis .
qed

lemma guarded_sweep:
  assumes "nxt \<noteq> prv" "nxt \<noteq> vel"
    and len: "length (st nxt) = nRows * nCols" "length (st prv) = nRows * nCols"
             "length (st vel) = nRows * nCols"
    and "0 < nCols"
  shows "for_each [0..<nRows] (\<lambda>i. for_each [0..<nCols] (guarded_point nxt prv vel c nRows nCols i)) st
       = Some (st(nxt := sweep c nRows nCols (st vel) (st nxt) (st prv)))"
proof -
  let ?N = "nRows * nCols"
  let ?P = "\<lambda>g. interior nRows nCols (g div nCols) (g mod nCols)"
  let ?B = "\<lambda>g. guarded_point nxt prv vel c nRows nCols (g div nCols) (g mod nCols)"
  have "for_each [0..<nRows] (\<lambda>i. for_each [0..<nCols] (guarded_point nxt prv vel c nRows nCols i)) st
      = for_each [0..<?N] ?B st"
    using for_each_grid2 [OF assms(6), of nRows "guarded_point nxt prv vel c nRows nCols" st] by simp
  also have "\<dots> = for_each (filter ?P [0..<?N]) ?B st"
    by (rule for_each_skip) (simp add: guarded_point_def)
  also have "\<dots> = Some (st(nxt := sweep c nRows nCols (st vel) (st nxt) (st prv)))"
    by (rule interior_updates [OF assms(1-5)]) auto
  finally show ?thesis .
qed

subsection \<open>The loop nests of the two drivers\<close>

lemma cpu_loops_guarded:
  assumes "0 < nRows" "nRows < 2 ^ 32" "0 < nCols" "nCols < 2 ^ 32"
  shows "for_each [1..<usub32 nRows HALF_LENGTH] (\<lambda>i.
           for_each [1..<usub32 nCols HALF_LENGTH] (\<lambda>j. cpu_point nxt prv vel c nCols i j)) st
       = for_each [0..<nRows] (\<lambda>i. for_each [0..<nCols] (guarded_point nxt prv vel c nRows nCols i)) st"
proof -
  let ?Pr = "\<lambda>i. 1 \<le> i \<and> i < nRows - 1" and ?Pc = "\<lambda>j. 1 \<le> j \<and> j < nCols - 1"
  have u: "usub32 nRows HALF_LENGTH = nRows - 1" "usub32 nCols HALF_LENGTH = nCols - 1"
    using assms by (simp_all add: usub32_eq HALF_LENGTH_def)
  have row: "for_each [0..<nCols] (guarded_point nxt prv vel c nRows nCols i) s
           = for_each [1..<nCols - 1] (\<lambda>j. cpu_point nxt prv vel c nCols i j) s" if "?Pr i" for i s
  proof -
    have "for_each [0..<nCols] (guarded_point nxt prv vel c nRows nCols i) s
        = for_each (filter ?Pc [0..<nCols]) (guarded_point nxt prv vel c nRows nCols i) s"
      by (rule for_each_skip) (auto simp: guarded_point_def interior_def HALF_LENGTH_def)
    also have "\<dots> = for_each [1..<nCols - 1] (guarded_point nxt prv vel c nRows nCols i) s"
      by (simp add: filter_band)
    also have "\<dots> = for_each [1..<nCols - 1] (\<lambda>j. cpu_point nxt prv vel c nCols i j) s"
      by (rule for_each_cong) (use that in \<open>auto simp: guarded_point_def interior_def HALF_LENGTH_def\<close>)
    finally show ?thesis .
  qed
  have "for_each [0..<nRows] (\<lambda>i. for_each [0..<nCols] (guarded_point nxt prv vel c nRows nCols i)) st
      = for_each (filter ?Pr [0..<nRows])
          (\<lambda>i. for_each [0..<nCols] (guarded_point nxt prv vel c nRows nCols i)) st"
    by (rule for_each_skip, rule for_each_noop)
       (auto simp: guarded_point_def interior_def HALF_LENGTH_def)
  also have "\<dots> = for_each [1..<nRows - 1]
          (\<lambda>i. for_each [0..<nCols] (guarded_point nxt prv vel c nRows nCols i)) st"
    by (simp add: filter_band)
  also have "\<dots> = for_each [1..<nRows - 1]
          (\<lambda>i. for_each [1..<nCols - 1] (\<lambda>j. cpu_point nxt prv vel c nCols i j)) st"
    by (rule for_each_cong) (simp add: row)
  finally show ?thesis by (simp add: u)
qed

lemma parallel_for_guarded:
  assumes "0 < nRows" "nRows < 2 ^ 32" "0 < nCols" "nCols < 2 ^ 32"
  shows "parallel_for (nRows, nCols)
           (\<lambda>it. iso_2dfd_iteration_global it nxt prv vel c nRows nCols) st
       = for_each [0..<nRows] (\<lambda>i. for_each [0..<nCols] (guarded_point nxt prv vel c nRows nCols i)) st"
  unfolding parallel_for_def fst_conv snd_conv for_each_product
  by (rule for_each_cong, rule for_each_cong) (rule kernel_guarded [OF assms])

lemma length_sweep: "length (sweep c nRows nCols vel nxt prv) = nRows * nCols"
  by (simp add: sweep_def)

lemma length_evolve:
  "length A = nRows * nCols \<Longrightarrow> length B = nRows * nCols \<Longrightarrow>
   length (fst (evolve c nRows nCols vel k (A, B))) = nRows * nCols \<and>
   length (snd (evolve c nRows nCols vel k (A, B))) = nRows * nCols"
  by (induction k) (auto simp: length_sweep Let_def split: prod.splits)

subsection \<open>The drivers in closed form\<close>

lemma cpu_step_sweep:
  assumes "0 < nRows" "nRows < 2 ^ 32" "0 < nCols" "nCols < 2 ^ 32"
    and "nxt \<noteq> prv" "nxt \<noteq> vel"
    and "length (st nxt) = nRows * nCols" "length (st prv) = nRows * nCols"
        "length (st vel) = nRows * nCols"
  shows "cpu_step vel c nRows nCols k (nxt, prv, st)
       = Some (prv, nxt, st(nxt := sweep c nRows nCols (st vel) (st nxt) (st prv)))"
proof -
  have "for_each [1..<usub32 nRows HALF_LENGTH] (\<lambda>i.
           for_each [1..<usub32 nCols HALF_LENGTH] (\<lambda>j. cpu_point nxt prv vel c nCols i j)) st
      = Some (st(nxt := sweep c nRows nCols (st vel) (st nxt) (st prv)))"
    by (simp only: cpu_loops_guarded [OF assms(1-4)] guarded_sweep [OF assms(5-9) assms(3)])
  then show ?thesis
    unfolding cpu_step_def by simp
qed

lemma kernel_sweep:
  assumes "0 < nRows" "nRows < 2 ^ 32" "0 < nCols" "nCols < 2 ^ 32"
    and "nxt \<noteq> prv" "nxt \<noteq> vel"
    and "length (st nxt) = nRows * nCols" "length (st prv) = nRows * nCols"
        "length (st vel) = nRows * nCols"
  shows "parallel_for (nRows, nCols)
           (\<lambda>it. iso_2dfd_iteration_global it nxt prv vel c nRows nCols) st
       = Some (st(nxt := sweep c nRows nCols (st vel) (st nxt) (st prv)))"
  by (simp add: parallel_for_guarded [OF assms(1-4)] guarded_sweep [OF assms(5-9) assms(3)])

text \<open>
  The order in which the work items of one dispatch run does not matter: every list that
  holds each point of the range exactly once gives the result of the row-major order.
\<close>

lemma dispatch_any_order:
  assumes dims: "0 < nRows" "nRows < 2 ^ 32" "0 < nCols" "nCols < 2 ^ 32"
    and ne: "nxt \<noteq> prv" "nxt \<noteq> vel"
    and len: "length (st nxt) = nRows * nCols" "length (st prv) = nRows * nCols"
             "length (st vel) = nRows * nCols"
    and ids: "distinct ids" "set ids = {0..<nRows} \<times> {0..<nCols}"
  shows "for_each ids (\<lambda>it. iso_2dfd_iteration_global it nxt prv vel c nRows nCols) st
       = parallel_for (nRows, nCols) (\<lambda>it. iso_2dfd_iteration_global it nxt prv vel c nRows nCols) st"
proof -
  let ?K = "\<lambda>it. iso_2dfd_iteration_global it nxt prv vel c nRows nCols"
  let ?B = "\<lambda>g. guarded_point nxt prv vel c nRows nCols (g div nCols) (g mod nCols)"
  let ?gid = "\<lambda>(i, j). i * nCols + j"
  let ?P = "\<lambda>(i, j). interior nRows nCols i j"
  let ?gs = "map ?gid (filter ?P ids)"
  have K: "?K it s = ?B (?gid it) s" if "it \<in> set ids" for it s
  proof -
    obtain i j where it: "it = (i, j)" by (cases it)
    then have "j < nCols" using that ids(2) by simp
    then show ?thesis
      unfolding it by (simp add: kernel_guarded [OF dims])
  qed
  have "for_each ids ?K st = for_each (filter ?P ids) ?K st"
    by (rule for_each_skip) (auto simp: kernel_guarded [OF dims] guarded_point_def)
  also have "\<dots> = for_each (filter ?P ids) (\<lambda>it. ?B (?gid it)) st"
    by (rule for_each_cong) (simp add: K)
  also have "\<dots> = for_each ?gs ?B st"
    by (simp add: for_each_map_s)
  also have "\<dots> = Some (st(nxt := sweep c nRows nCols (st vel) (st nxt) (st prv)))"
  proof (rule interior_updates [OF ne len])
    have "inj_on ?gid (set ids)"
    proof (rule inj_onI)
      fix x y assume x: "x \<in> set ids" and y: "y \<in> set ids" and e: "?gid x = ?gid y"
      obtain i j k l where xy: "x = (i, j)" "y = (k, l)" by (cases x, cases y)
      then have b: "j < nCols" "l < nCols" using x y ids(2) by simp_all
      have "(i * nCols + j) div nCols = (k * nCols + l) div nCols"
        "(i * nCols + j) mod nCols = (k * nCols + l) mod nCols" using e xy by simp_all
      then show "x = y" using b xy by simp
    qed
    then have "inj_on ?gid (set (filter ?P ids))" by (rule inj_on_subset) simp
    then show "distinct ?gs" using ids(1) by (simp add: distinct_map)
    show "set ?gs = {g. g < nRows * nCols \<and> interior nRows nCols (g div nCols) (g mod nCols)}"
    proof (intro set_eqI iffI)
      fix g assume "g \<in> set ?gs"
      then obtain i j where ij: "g = i * nCols + j" "i < nRows" "j < nCols" "interior nRows nCols i j"
        using ids(2) by auto
      then have "g div nCols = i" "g mod nCols = j" by simp_all
      then show "g \<in> {g. g < nRows * nCols \<and> interior nRows nCols (g div nCols) (g mod nCols)}"
        using ij grid_index_less by simp
    next
      fix g assume "g \<in> {g. g < nRows * nCols \<and> interior nRows nCols (g div nCols) (g mod nCols)}"
      then have g: "g < nRows * nCols" "interior nRows nCols (g div nCols) (g mod nCols)" by simp_all
      have "g div nCols < nRows" using g(1) dims(3) by (simp add: less_mult_imp_div_less)
      moreover have "g mod nCols < nCols" using dims(3) by simp
      ultimately have m: "(g div nCols, g mod nCols) \<in> set (filter ?P ids)"
        using ids(2) g(2) by simp
      have "g = ?gid (g div nCols, g mod nCols)" by simp
      then have "g \<in> ?gid ` set (filter ?P ids)" using m by (rule image_eqI)
      then show "g \<in> set ?gs" by (simp only: set_map)
    qed
  qed
  finally show ?thesis
    by (simp add: kernel_sweep [OF dims ne len])
qed

lemma cpu_driver_evolve:
  assumes dims: "0 < nRows" "nRows < 2 ^ 32" "0 < nCols" "nCols < 2 ^ 32"
    and ne: "nxt \<noteq> prv" "nxt \<noteq> vel" "prv \<noteq> vel"
    and len: "length (st nxt) = nRows * nCols" "length (st prv) = nRows * nCols"
        "length (st vel) = nRows * nCols"
  shows "for_each [0..<n] (cpu_step vel c nRows nCols) (nxt, prv, st)
       = Some (if even n then nxt else prv, if even n then prv else nxt,
               st(nxt := fst (evolve c nRows nCols (st vel) n (st nxt, st prv)),
                  prv := snd (evolve c nRows nCols (st vel) n (st nxt, st prv))))"
proof (induction n)
  case 0
  show ?case by simp
next
  case (Suc n)
  obtain A B where AB: "evolve c nRows nCols (st vel) n (st nxt, st prv) = (A, B)"
    by (cases "evolve c nRows nCols (st vel) n (st nxt, st prv)")
  have lAB: "length A = nRows * nCols" "length B = nRows * nCols"
    using length_evolve [OF len(1,2), of c "st vel" n] AB by simp_all
  let ?s = "st(nxt := A, prv := B)"
  have prem: "for_each [0..<n] (cpu_step vel c nRows nCols) (nxt, prv, st)
       = Some (if even n then nxt else prv, if even n then prv else nxt, ?s)"
    using Suc AB by (simp add: fun_eq_iff)
  show ?case
  proof (cases "even n")
    case True
    have "cpu_step vel c nRows nCols n (nxt, prv, ?s)
        = Some (prv, nxt, ?s(nxt := sweep c nRows nCols (?s vel) (?s nxt) (?s prv)))"
      by (rule cpu_step_sweep [OF dims ne(1,2)]) (use ne lAB len in simp_all)
    then show ?thesis
      using True prem AB ne by (simp add: for_each_snoc fun_eq_iff)
  next
    case False
    have "cpu_step vel c nRows nCols n (prv, nxt, ?s)
        = Some (nxt, prv, ?s(prv := sweep c nRows nCols (?s vel) (?s prv) (?s nxt)))"
      by (rule cpu_step_sweep [OF dims ne(1) [symmetric] ne(3)]) (use ne lAB len in simp_all)
    then show ?thesis
      using False prem AB ne by (simp add: for_each_snoc fun_eq_iff)
  qed
qed

lemma iso_2dfd_iteration_cpu_evolve:
  assumes "0 < nRows" "nRows < 2 ^ 32" "0 < nCols" "nCols < 2 ^ 32"
    and "nxt \<noteq> prv" "nxt \<noteq> vel" "prv \<noteq> vel"
    and "length (st nxt) = nRows * nCols" "length (st prv) = nRows * nCols"
        "length (st vel) = nRows * nCols"
  shows "iso_2dfd_iteration_cpu nxt prv vel c nRows nCols n st
       = Some (st(nxt := fst (evolve c nRows nCols (st vel) n (st nxt, st prv)),
                  prv := snd (evolve c nRows nCols (st vel) n (st nxt, st prv))))"
  unfolding iso_2dfd_iteration_cpu_def by (simp add: cpu_driver_evolve [OF assms])

lemma submit_sweep:
  assumes dims: "0 < nRows" "nRows < 2 ^ 32" "0 < nCols" "nCols < 2 ^ 32"
    and len: "length (st next_base) = nRows * nCols" "length (st prev_base) = nRows * nCols"
        "length (st vel_base) = nRows * nCols"
  shows "submit c nRows nCols k st
       = Some (if even k
               then st(next_base := sweep c nRows nCols (st vel_base) (st next_base) (st prev_base))
               else st(prev_base := sweep c nRows nCols (st vel_base) (st prev_base) (st next_base)))"
proof (cases "even k")
  case True
  then have "k mod 2 = 0" by presburger
  then show ?thesis
    using True kernel_sweep [OF dims, of next_base prev_base vel_base st c] len
    by (simp add: submit_def)
next
  case False
  then have "k mod 2 \<noteq> 0" by presburger
  then show ?thesis
    using False kernel_sweep [OF dims, of prev_base next_base vel_base st c] len
    by (simp add: submit_def)
qed

lemma device_loop_evolve:
  assumes dims: "0 < nRows" "nRows < 2 ^ 32" "0 < nCols" "nCols < 2 ^ 32"
    and len: "length (st next_base) = nRows * nCols" "length (st prev_base) = nRows * nCols"
        "length (st vel_base) = nRows * nCols"
  shows "device_loop c nRows nCols n st
       = Some (st(next_base := fst (evolve c nRows nCols (st vel_base) n (st next_base, st prev_base)),
                  prev_base := snd (evolve c nRows nCols (st vel_base) n (st next_base, st prev_base))))"
  unfolding device_loop_def
proof (induction n)
  case 0
  show ?case by simp
next
  case (Suc n)
  obtain A B where AB: "evolve c nRows nCols (st vel_base) n (st next_base, st prev_base) = (A, B)"
    by (cases "evolve c nRows nCols (st vel_base) n (st next_base, st prev_base)")
  have lAB: "length A = nRows * nCols" "length B = nRows * nCols"
    using length_evolve [OF len(1,2), of c "st vel_base" n] AB by simp_all
  let ?s = "st(next_base := A, prev_base := B)"
  have prem: "for_each [0..<n] (submit c nRows nCols) st = Some ?s"
    using Suc AB by (simp add: fun_eq_iff)
  show ?case
  proof (cases "even n")
    case True
    have "submit c nRows nCols n ?s
        = Some (?s(next_base := sweep c nRows nCols (?s vel_base) (?s next_base) (?s prev_base)))"
      using True submit_sweep [OF dims, of ?s c n] lAB len by simp
    then show ?thesis
      using True prem AB by (simp add: for_each_snoc fun_eq_iff)
  next
    case False
    have "submit c nRows nCols n ?s
        = Some (?s(prev_base := sweep c nRows nCols (?s vel_base) (?s prev_base) (?s next_base)))"
      using False submit_sweep [OF dims, of ?s c n] lAB len by simp
    then show ?thesis
      using False prem AB by (simp add: for_each_snoc fun_eq_iff)
  qed
qed

subsection \<open>Loops of writes\<close>

lemma const_writes:
  assumes "\<forall>g\<in>set gs. g < length (st p)"
  shows "for_each gs (\<lambda>g s. wr s p g v) st =
         Some (st(p := map (\<lambda>g. if g \<in> set gs then v else st p ! g) [0..<length (st p)]))"
  using assms
proof (induction gs arbitrary: st)
  case Nil
  then show ?case by (simp add: map_nth)
next
  case (Cons g gs)
  let ?st1 = "st(p := (st p)[g := v])"
  have "for_each gs (\<lambda>g s. wr s p g v) ?st1 =
         Some (?st1(p := map (\<lambda>h. if h \<in> set gs then v else ?st1 p ! h) [0..<length (?st1 p)]))"
    by (rule Cons.IH) (use Cons.prems in simp)
  moreover have "map (\<lambda>h. if h \<in> set gs then v else ?st1 p ! h) [0..<length (st p)]
      = map (\<lambda>h. if h \<in> set (g # gs) then v else st p ! h) [0..<length (st p)]"
    by (rule map_cong [OF refl]) (auto simp: nth_list_update)
  ultimately show ?case using Cons.prems by (simp add: wr_def fun_eq_iff)
qed

lemma fill_writes:
  assumes "p \<noteq> q" "p \<noteq> r" "q \<noteq> r"
    and "\<forall>g\<in>set gs. g < length (st p) \<and> g < length (st q) \<and> g < length (st r)"
  shows "for_each gs (\<lambda>g s. do { s \<leftarrow> wr s p g a; s \<leftarrow> wr s q g b; wr s r g c }) st =
         Some (st(p := map (\<lambda>g. if g \<in> set gs then a else st p ! g) [0..<length (st p)],
                  q := map (\<lambda>g. if g \<in> set gs then b else st q ! g) [0..<length (st q)],
                  r := map (\<lambda>g. if g \<in> set gs then c else st r ! g) [0..<length (st r)]))"
  using assms(4)
proof (induction gs arbitrary: st)
  case Nil
  then show ?case by (simp add: map_nth)
next
  case (Cons g gs)
  let ?B = "\<lambda>g s. do { s \<leftarrow> wr s p g a; s \<leftarrow> wr s q g b; wr s r g c }"
  let ?st1 = "st(p := (st p)[g := a], q := (st q)[g := b], r := (st r)[g := c])"
  have step: "?B g st = Some ?st1"
    using Cons.prems assms(1-3) by (simp add: wr_def)
  have IH: "for_each gs ?B ?st1 =
         Some (?st1(p := map (\<lambda>g. if g \<in> set gs then a else ?st1 p ! g) [0..<length (?st1 p)],
                  q := map (\<lambda>g. if g \<in> set gs then b else ?st1 q ! g) [0..<length (?st1 q)],
                  r := map (\<lambda>g. if g \<in> set gs then c else ?st1 r ! g) [0..<length (?st1 r)]))"
    by (rule Cons.IH) (use Cons.prems assms(1-3) in simp)
  have m: "map (\<lambda>h. if h \<in> set gs then x else xs[g := x] ! h) [0..<length xs]
      = map (\<lambda>h. if h \<in> set (g # gs) then x else xs ! h) [0..<length xs]" for x :: real and xs
    by (rule map_cong [OF refl]) (auto simp: nth_list_update)
  show ?case
    using step IH assms(1-3) m [of a "st p"] m [of b "st q"] m [of c "st r"]
    by (simp add: fun_eq_iff)
qed

lemma map_const_upt: "map (\<lambda>g. if g \<in> set [0..<n] then v else xs ! g) [0..<n] = replicate n v"
proof -
  have "map (\<lambda>g. if g \<in> set [0..<n] then v else xs ! g) [0..<n] = map (\<lambda>g. v) [0..<n]"
    by (rule map_cong [OF refl]) simp
  then show ?thesis by (simp add: map_replicate_const)
qed

subsection \<open>initialize in closed form\<close>

lemma in_mixed_range:
  assumes "n < 2 ^ 31" "s < 12"
  shows "i \<in> set (mixed_range (int (n div 2) - int s) (n div 2 + s))
         \<longleftrightarrow> s \<le> n div 2 \<and> n div 2 - s \<le> i \<and> i < n div 2 + s"
proof -
  let ?lo = "int (n div 2) - int s"
  have "int n < 2 ^ 31" using assms(1) by (metis of_nat_less_iff of_nat_numeral of_nat_power)
  then have b: "- (2 ^ 63) \<le> ?lo" "?lo < 2 ^ 63" "int (n div 2 + s) \<le> 2 ^ 63"
    using assms(2) by simp_all
  have "n div 2 + s \<le> 2 ^ 63" using b(3) by (metis of_nat_le_iff of_nat_numeral of_nat_power)
  then have "mixed_range ?lo (n div 2 + s) = (if ?lo < 0 then [] else [nat ?lo..<n div 2 + s])"
    using b by (intro mixed_range_eq)
  then show ?thesis by (auto simp: nat_diff_distrib')
qed

lemma valid_grid_dims:
  assumes "valid_grid nRows nCols"
  shows "0 < nRows" "nRows < 2 ^ 31" "nRows < 2 ^ 32" "0 < nCols" "nCols < 2 ^ 31" "nCols < 2 ^ 32"
proof -
  from assms have p: "0 < nRows" "0 < nCols" and b: "nRows * nCols < 2 ^ 31"
    by (auto simp: valid_grid_def)
  obtain r c where rc: "nRows = Suc r" "nCols = Suc c"
    using p by (cases nRows; cases nCols) auto
  have "nRows \<le> nRows * nCols" "nCols \<le> nRows * nCols"
    by (simp_all add: rc)
  then have s: "nRows < 2 ^ 31" "nCols < 2 ^ 31" using b by linarith+
  show "0 < nRows" "0 < nCols" "nRows < 2 ^ 31" "nCols < 2 ^ 31" using p s by auto
  show "nRows < 2 ^ 32" "nCols < 2 ^ 32" using s by simp_all
qed

lemma in_square_iff:
  assumes "valid_grid nRows nCols" "s < 12"
  shows "in_square nRows nCols s i k \<longleftrightarrow>
           s \<le> nRows div 2 \<and> nRows div 2 - s \<le> i \<and> i < nRows div 2 + s \<and>
           s \<le> nCols div 2 \<and> nCols div 2 - s \<le> k \<and> k < nCols div 2 + s"
proof -
  have "nRows < 2 ^ 31" "nCols < 2 ^ 31" using valid_grid_dims [OF assms(1)] by auto
  then show ?thesis
    unfolding in_square_def by (simp add: in_mixed_range assms(2))
qed

lemma in_square_bounds:
  assumes "valid_grid nRows nCols" "s < 12" "in_square nRows nCols s i k"
  shows "i < nRows" "k < nCols"
  using assms in_square_iff [OF assms(1,2), of i k] by auto

lemma square_pass:
  assumes vg: "valid_grid nRows nCols" and s: "s < 12" and len: "length (st p) = nRows * nCols"
  shows "for_each (mixed_range (int (nRows div 2) - int s) (nRows div 2 + s)) (\<lambda>i st.
           let offset = i * nCols in
           for_each (mixed_range (int (nCols div 2) - int s) (nCols div 2 + s)) (\<lambda>k st.
               wr st p (offset + k) (wavelet ! s)) st) st
       = Some (st(p := wavelet_layer nRows nCols s (st p)))"
proof -
  let ?R = "mixed_range (int (nRows div 2) - int s) (nRows div 2 + s)"
  let ?C = "mixed_range (int (nCols div 2) - int s) (nCols div 2 + s)"
  let ?gs = "concat (map (\<lambda>i. map (\<lambda>k. i * nCols + k) ?C) ?R)"
  have nC: "0 < nCols" using vg by (simp add: valid_grid_def)
  have mem: "g \<in> set ?gs \<longleftrightarrow> g < nRows * nCols \<and> in_square nRows nCols s (g div nCols) (g mod nCols)" for g
  proof
    assume "g \<in> set ?gs"
    then obtain i k where ik: "i \<in> set ?R" "k \<in> set ?C" "g = i * nCols + k" by auto
    then have sq: "in_square nRows nCols s i k" by (simp add: in_square_def)
    have b: "i < nRows" "k < nCols" using in_square_bounds [OF vg s sq] .
    then have "g div nCols = i" "g mod nCols = k" using ik(3) by simp_all
    then show "g < nRows * nCols \<and> in_square nRows nCols s (g div nCols) (g mod nCols)"
      using sq b ik(3) grid_index_less by simp
  next
    assume a: "g < nRows * nCols \<and> in_square nRows nCols s (g div nCols) (g mod nCols)"
    then have rc: "g div nCols \<in> set ?R" "g mod nCols \<in> set ?C" by (simp_all add: in_square_def)
    have "g = (g div nCols) * nCols + g mod nCols" by simp
    then have "g \<in> (\<lambda>k. (g div nCols) * nCols + k) ` set ?C"
      using rc(2) by (rule image_eqI)
    then have "g \<in> set (map (\<lambda>k. (g div nCols) * nCols + k) ?C)" by simp
    then show "g \<in> set ?gs" using rc(1) by (auto simp del: div_mult_mod_eq image_set simp: image_set [symmetric])
  qed
  have "for_each ?R (\<lambda>i st. let offset = i * nCols in
           for_each ?C (\<lambda>k st. wr st p (offset + k) (wavelet ! s)) st) st
      = for_each ?gs (\<lambda>g st. wr st p g (wavelet ! s)) st"
    by (simp add: for_each_concat for_each_map Let_def)
  also have "\<dots> = Some (st(p := map (\<lambda>g. if g \<in> set ?gs then wavelet ! s else st p ! g)
                                 [0..<length (st p)]))"
  proof (rule const_writes)
    show "\<forall>g\<in>set ?gs. g < length (st p)"
    proof
      fix g assume "g \<in> set ?gs"
      with mem have "g < nRows * nCols \<and> in_square nRows nCols s (g div nCols) (g mod nCols)"
        by (rule iffD1)
      then show "g < length (st p)" by (simp only: len)
    qed
  qed
  also have "map (\<lambda>g. if g \<in> set ?gs then wavelet ! s else st p ! g) [0..<length (st p)]
           = wavelet_layer nRows nCols s (st p)"
    unfolding wavelet_layer_def by (rule map_cong [OF refl]) (simp only: mem, simp add: len)
  finally show ?thesis .
qed

lemma length_wavelet_layer: "length (wavelet_layer nRows nCols s buf) = length buf"
  by (simp add: wavelet_layer_def)

lemma length_fold_layer: "length (fold (wavelet_layer nRows nCols) ss buf) = length buf"
  by (induction ss arbitrary: buf) (simp_all add: length_wavelet_layer)

lemma wavelet_passes:
  assumes vg: "valid_grid nRows nCols" and ss: "\<forall>s\<in>set ss. s < 12"
    and len: "length (st p) = nRows * nCols"
  shows "for_each ss (\<lambda>s st.
       for_each (mixed_range (int (nRows div 2) - int s) (nRows div 2 + s)) (\<lambda>i st.
         let offset = i * nCols in
         for_each (mixed_range (int (nCols div 2) - int s) (nCols div 2 + s)) (\<lambda>k st.
             wr st p (offset + k) (wavelet ! s)
           ) st) st) st
     = Some (st(p := fold (wavelet_layer nRows nCols) ss (st p)))"
  using ss len
proof (induction ss arbitrary: st)
  case Nil
  then show ?case by simp
next
  case (Cons s ss)
  let ?st1 = "st(p := wavelet_layer nRows nCols s (st p))"
  have 1: "for_each (mixed_range (int (nRows div 2) - int s) (nRows div 2 + s)) (\<lambda>i st.
         let offset = i * nCols in
         for_each (mixed_range (int (nCols div 2) - int s) (nCols div 2 + s)) (\<lambda>k st.
             wr st p (offset + k) (wavelet ! s)
           ) st) st = Some ?st1"
    by (rule square_pass [OF vg]) (use Cons.prems in simp_all)
  have 2: "for_each ss (\<lambda>s st.
       for_each (mixed_range (int (nRows div 2) - int s) (nRows div 2 + s)) (\<lambda>i st.
         let offset = i * nCols in
         for_each (mixed_range (int (nCols div 2) - int s) (nCols div 2 + s)) (\<lambda>k st.
             wr st p (offset + k) (wavelet ! s)
           ) st) st) ?st1
     = Some (?st1(p := fold (wavelet_layer nRows nCols) ss (?st1 p)))"
    by (rule Cons.IH) (use Cons.prems in \<open>simp_all add: length_wavelet_layer\<close>)
  show ?case
    using 1 2 by (simp add: fun_eq_iff)
qed

lemma initialize_eq:
  assumes vg: "valid_grid nRows nCols"
    and ne: "p \<noteq> q" "p \<noteq> r" "q \<noteq> r"
    and len: "length (st p) = nRows * nCols" "length (st q) = nRows * nCols"
             "length (st r) = nRows * nCols"
  shows "initialize p q r nRows nCols st
       = Some (st(p := initial_prev nRows nCols,
                  q := replicate (nRows * nCols) 0,
                  r := replicate (nRows * nCols) (1500 * 1500)))"
proof -
  let ?N = "nRows * nCols"
  let ?B = "\<lambda>g s. do { s \<leftarrow> wr s p g 0; s \<leftarrow> wr s q g 0; wr s r g (1500 * 1500) }"
  let ?st1 = "st(p := replicate ?N 0, q := replicate ?N 0, r := replicate ?N (1500 * 1500))"
  have "for_each [0..<nRows] (\<lambda>i st.
       let offset = i * nCols in
       for_each [0..<nCols] (\<lambda>k st. do {
           st \<leftarrow> wr st p (offset + k) 0;
           st \<leftarrow> wr st q (offset + k) 0;
           wr st r (offset + k) (1500 * 1500)
         }) st) st = for_each [0..<?N] ?B st"
    using for_each_grid [of nRows nCols ?B st] by (simp add: Let_def)
  also have "\<dots> = Some ?st1"
    using fill_writes [OF ne, of "[0..<?N]" st 0 0 "1500 * 1500"] len
    by (simp only: map_const_upt) simp
  finally have phase1: "for_each [0..<nRows] (\<lambda>i st.
       let offset = i * nCols in
       for_each [0..<nCols] (\<lambda>k st. do {
           st \<leftarrow> wr st p (offset + k) 0;
           st \<leftarrow> wr st q (offset + k) 0;
           wr st r (offset + k) (1500 * 1500)
         }) st) st = Some ?st1" .
  have phase2: "for_each (rev [0..<12]) (\<lambda>s st.
       for_each (mixed_range (int (nRows div 2) - int s) (nRows div 2 + s)) (\<lambda>i st.
         let offset = i * nCols in
         for_each (mixed_range (int (nCols div 2) - int s) (nCols div 2 + s)) (\<lambda>k st.
             wr st p (offset + k) (wavelet ! s)
           ) st) st) ?st1
     = Some (?st1(p := fold (wavelet_layer nRows nCols) (rev [0..<12]) (?st1 p)))"
    by (rule wavelet_passes [OF vg]) (use ne in simp_all)
  show ?thesis
    unfolding initialize_def phase1 using phase2 ne
    by (simp add: initial_prev_def fun_eq_iff)
qed

subsection \<open>within_epsilon in closed form\<close>

lemma guard_compared:
  assumes "ix < dimx" "iy < dimy" "dimx < 2 ^ 64" "dimy < 2 ^ 64"
  shows "(ix \<ge> radius \<and> ix < usub64 dimx radius \<and> iy \<ge> radius \<and> iy < usub64 dimy radius)
       \<longleftrightarrow> (radius \<le> ix \<and> ix + radius < dimx \<and> radius \<le> iy \<and> iy + radius < dimy)"
proof (cases "radius \<le> ix \<and> radius \<le> iy")
  case False
  then show ?thesis by auto
next
  case True
  then have "radius \<le> dimx" "radius \<le> dimy" using assms(1,2) by simp_all
  then show ?thesis using assms(3,4) by (auto simp: usub64_eq)
qed

lemma scan_after_Suc:
  "scan_after output reference dimx dimy radius delta (Suc n) =
     (let s = scan_after output reference dimx dimy radius delta n;
          d = distance output reference n;
          s1 = (if compared dimx dimy radius n
                then (let s' = s\<lparr>norm2 := norm2 s + d * d\<rparr>
                      in if delta < d
                         then s'\<lparr>error := True,
                                errFile := errFile s' @ [diag_at output reference dimx n]\<rparr>
                         else s')
                else s)
      in s1\<lparr>output_off := output_off s1 + 1, reference_off := reference_off s1 + 1\<rparr>)"
  by (simp add: scan_after_def Let_def)

lemma within_epsilon_cell_step:
  assumes "0 < dimx" "dimx < 2 ^ 64" "dimy < 2 ^ 64" "n < dimx * dimy"
    and "n < length output" "n < length reference"
  shows "within_epsilon_cell output reference dimx dimy radius delta (n div dimx) (n mod dimx)
           (scan_after output reference dimx dimy radius delta n)
       = Some (scan_after output reference dimx dimy radius delta (Suc n))"
proof -
  have ix: "n mod dimx < dimx" using assms(1) by simp
  have iy: "n div dimx < dimy" using assms(1,4) by (simp add: less_mult_imp_div_less mult.commute)
  have off: "output_off (scan_after output reference dimx dimy radius delta n) = n"
    "reference_off (scan_after output reference dimx dimy radius delta n) = n"
    by (simp_all add: scan_after_def Let_def)
  show ?thesis
    unfolding within_epsilon_cell_def guard_compared [OF ix iy assms(2,3)] scan_after_Suc
    using assms(5,6)
    by (simp add: off rd_buf_def compared_def distance_def diag_at_def Let_def)
qed

lemma scan_prefix:
  assumes "0 < dimx" "dimx < 2 ^ 64" "dimy < 2 ^ 64" "n \<le> dimx * dimy"
    and "dimx * dimy \<le> length output" "dimx * dimy \<le> length reference"
  shows "for_each [0..<n] (\<lambda>p. within_epsilon_cell output reference dimx dimy radius delta
            (p div dimx) (p mod dimx))
          \<lparr>output_off = 0, reference_off = 0, error = False, norm2 = 0, errFile = []\<rparr>
       = Some (scan_after output reference dimx dimy radius delta n)"
  using assms(4)
proof (induction n)
  case 0
  show ?case by (simp add: scan_after_def)
next
  case (Suc n)
  then have "for_each [0..<n] (\<lambda>p. within_epsilon_cell output reference dimx dimy radius delta
            (p div dimx) (p mod dimx))
          \<lparr>output_off = 0, reference_off = 0, error = False, norm2 = 0, errFile = []\<rparr>
       = Some (scan_after output reference dimx dimy radius delta n)" by simp
  moreover have "within_epsilon_cell output reference dimx dimy radius delta (n div dimx) (n mod dimx)
           (scan_after output reference dimx dimy radius delta n)
       = Some (scan_after output reference dimx dimy radius delta (Suc n))"
    by (rule within_epsilon_cell_step) (use Suc.prems assms in simp_all)
  ultimately show ?case by (simp add: for_each_snoc)
qed

lemma within_epsilon_eq:
  assumes "0 < dimx" "dimx < 2 ^ 64" "dimy < 2 ^ 64"
    and "dimx * dimy \<le> length output" "dimx * dimy \<le> length reference"
  shows "within_epsilon output reference dimx dimy radius delta
       = Some (let s = scan_after output reference dimx dimy radius delta (dimx * dimy)
               in s\<lparr>norm2 := sqrt (norm2 s)\<rparr>)"
proof -
  have "for_each [0..<dimy] (\<lambda>iy.
            for_each [0..<dimx] (within_epsilon_cell output reference dimx dimy radius delta iy))
          \<lparr>output_off = 0, reference_off = 0, error = False, norm2 = 0, errFile = []\<rparr>
      = Some (scan_after output reference dimx dimy radius delta (dimy * dimx))"
    using for_each_grid2 [OF assms(1), of dimy
        "within_epsilon_cell output reference dimx dimy radius delta"]
      scan_prefix [OF assms(1-3) _ assms(4,5), of "dimy * dimx" radius delta]
    by (simp add: mult.commute)
  then show ?thesis
    unfolding within_epsilon_def by (simp add: mult.commute Let_def)
qed

subsection \<open>Single cells of a sweep and of the initial field\<close>

lemma sweep_nth:
  assumes "g < nRows * nCols"
  shows "sweep c nRows nCols vel nxt prv ! g =
    (if interior nRows nCols (g div nCols) (g mod nCols) then leapfrog nxt prv vel c nCols g
     else nxt ! g)"
  using assms by (simp add: sweep_def)

lemma sweep_halo:
  assumes "g < nRows * nCols" "\<not> interior nRows nCols (g div nCols) (g mod nCols)"
  shows "sweep c nRows nCols vel nxt prv ! g = nxt ! g"
  using assms by (simp add: sweep_def)

lemma evolve_halo:
  assumes "g < nRows * nCols" "\<not> interior nRows nCols (g div nCols) (g mod nCols)"
  shows "fst (evolve c nRows nCols vel k (A, B)) ! g = A ! g \<and>
         snd (evolve c nRows nCols vel k (A, B)) ! g = B ! g"
  by (induction k) (auto simp: sweep_halo [OF assms] Let_def split: prod.splits)

lemma evolve_odd_fst:
  "odd k \<Longrightarrow> fst (evolve c nRows nCols vel (Suc k) AB) = fst (evolve c nRows nCols vel k AB)"
  by (simp add: Let_def split: prod.splits)

lemma length_initial_prev: "length (initial_prev nRows nCols) = nRows * nCols"
  by (simp add: initial_prev_def length_fold_layer)

lemma wavelet_layer_nth:
  "g < length buf \<Longrightarrow> wavelet_layer nRows nCols s buf ! g =
     (if in_square nRows nCols s (g div nCols) (g mod nCols) then wavelet ! s else buf ! g)"
  by (simp add: wavelet_layer_def)

lemma fold_layer_nth:
  "g < length buf \<Longrightarrow> fold (wavelet_layer nRows nCols) ss buf ! g =
     fold (\<lambda>s v. if in_square nRows nCols s (g div nCols) (g mod nCols) then wavelet ! s else v)
       ss (buf ! g)"
  by (induction ss arbitrary: buf) (simp_all add: wavelet_layer_nth length_wavelet_layer)

lemma initial_prev_nth:
  assumes "i < nRows" "k < nCols"
  shows "initial_prev nRows nCols ! (i * nCols + k) =
     fold (\<lambda>s v. if in_square nRows nCols s i k then wavelet ! s else v) (rev [0..<12]) 0"
proof -
  have g: "i * nCols + k < nRows * nCols" using assms by (rule grid_index_less)
  have "(i * nCols + k) div nCols = i" "(i * nCols + k) mod nCols = k" using assms(2) by simp_all
  then show ?thesis
    unfolding initial_prev_def using fold_layer_nth [of "i * nCols + k" "replicate (nRows * nCols) 0"
        nRows nCols "rev [0..<12]"] g
    by simp
qed

lemma in_square_rotate:
  assumes vg: "valid_grid nRows nCols" and s: "s < 12"
    and ev: "even nRows" "even nCols" and b: "i < nRows" "k < nCols"
  shows "in_square nRows nCols s (nRows - 1 - i) (nCols - 1 - k) \<longleftrightarrow> in_square nRows nCols s i k"
proof -
  from ev(1) obtain a where a: "nRows = 2 * a" by (rule evenE)
  from ev(2) obtain c where c: "nCols = 2 * c" by (rule evenE)
  have 1: "(a - s \<le> 2 * a - 1 - i \<and> 2 * a - 1 - i < a + s) \<longleftrightarrow> (a - s \<le> i \<and> i < a + s)"
    if "s \<le> a" using that b(1) a by arith
  have 2: "(c - s \<le> 2 * c - 1 - k \<and> 2 * c - 1 - k < c + s) \<longleftrightarrow> (c - s \<le> k \<and> k < c + s)"
    if "s \<le> c" using that b(2) c by arith
  have "nRows div 2 = a" "nCols div 2 = c" using a c by simp_all
  then show ?thesis
    unfolding in_square_iff [OF vg s] using 1 2 a c by auto
qed

subsection \<open>The validator on equal arrays and on a single difference\<close>

lemma within_epsilon_same:
  assumes "0 < dimx" "dimx < 2 ^ 64" "dimy < 2 ^ 64" "dimx * dimy \<le> length xs" "0 \<le> delta"
  shows "\<exists>s. within_epsilon xs xs dimx dimy radius delta = Some s \<and> \<not> error s \<and> errFile s = []"
proof -
  have "filter (\<lambda>p. delta < distance xs xs p) ys = []" for ys
    using assms(5) by (simp add: distance_def)
  then show ?thesis
    unfolding within_epsilon_eq [OF assms(1-4) assms(4)]
    by (simp add: scan_after_def Let_def)
qed

lemma filter_single:
  assumes "q < n" "\<And>p. p < n \<Longrightarrow> P p \<longleftrightarrow> p = q"
  shows "filter P [0..<n] = [q]"
proof (rule sorted_distinct_set_unique)
  show "set (filter P [0..<n]) = set [q]" using assms by auto
qed (auto intro: sorted_wrt_filter)

subsection \<open>A whole run\<close>

text \<open>
  A run with valid arguments: the two phases return, the validator is called on the
  arrays they leave, and its flag decides the value that \<^verbatim>\<open>main\<close> returns. In closed
  form, \<open>F\<close> is the content of the array in the role of \<open>next\<close> at step 0, after
  \<open>nIterations\<close> steps from the initial state.
\<close>

lemma main_run:
  assumes args: "read_arg stoi argv 1 = Some (int nRows)" "read_arg stoi argv 2 = Some (int nCols)"
      "read_arg stoi argv 3 = Some (int nIterations)"
    and vg: "valid_grid nRows nCols" and it: "nIterations < 2 ^ 32"
    and F: "F = fst (evolve ((DT * DT) / (DXY * DXY)) nRows nCols
                 (replicate (nRows * nCols) (1500 * 1500)) nIterations
                 (replicate (nRows * nCols) 0, initial_prev nRows nCols))"
  shows "\<exists>st_d st s.
           initialize prev_base next_base vel_base nRows nCols (new_arrays fresh (nRows * nCols))
             \<bind> device_loop ((DT * DT) / (DXY * DXY)) nRows nCols nIterations = Some st_d \<and>
           initialize prev_base next_cpu vel_base nRows nCols st_d
             \<bind> iso_2dfd_iteration_cpu next_cpu prev_base vel_base ((DT * DT) / (DXY * DXY))
                   nRows nCols nIterations = Some st \<and>
           within_epsilon (st next_base) (st next_cpu) nRows nCols HALF_LENGTH 0.1 = Some s \<and>
           main stoi fresh argv =
             Some (Finished (if error s then 1 else 0)
                    \<lparr>reported_error = error s, wavefield_snapshot = st_d next_base,
                     wavefield_snapshot_cpu = st next_cpu, error_diff = errFile s\<rparr>) \<and>
           st_d next_base = F \<and> st next_base = F \<and> st next_cpu = F \<and>
           \<not> error s \<and> errFile s = []"
proof -
  note d = valid_grid_dims [OF vg]
  let ?N = "nRows * nCols" and ?c = "(DT * DT) / (DXY * DXY)"
  let ?vel = "replicate ?N (1500 * 1500 :: real)"
  let ?E = "evolve ?c nRows nCols ?vel nIterations (replicate ?N 0, initial_prev nRows nCols)"
  let ?st0 = "new_arrays fresh ?N"
  let ?st1 = "?st0(prev_base := initial_prev nRows nCols, next_base := replicate ?N 0,
                   vel_base := ?vel)"
  let ?st2 = "?st1(next_base := fst ?E, prev_base := snd ?E)"
  let ?st3 = "?st2(prev_base := initial_prev nRows nCols, next_cpu := replicate ?N 0,
                   vel_base := ?vel)"
  let ?st4 = "?st3(next_cpu := fst ?E, prev_base := snd ?E)"
  have N: "?N < 2 ^ 31" using vg by (simp add: valid_grid_def)
  have conv: "nat (int nRows mod 2 ^ 64) = nRows" "nat (int nCols mod 2 ^ 64) = nCols"
    "nat (int nIterations mod 2 ^ 32) = nIterations"
  proof -
    have "int nRows < 2 ^ 64" "int nCols < 2 ^ 64" "int nIterations < 2 ^ 32"
      using d(2,5) it by simp_all
    then show "nat (int nRows mod 2 ^ 64) = nRows" "nat (int nCols mod 2 ^ 64) = nCols"
      "nat (int nIterations mod 2 ^ 32) = nIterations" by simp_all
  qed
  have size: "?N mod 2 ^ 64 = ?N" "\<not> 2 ^ 64 \<le> ?N * 4"
  proof -
    have p: "(2::nat) ^ 31 = 2147483648" "(2::nat) ^ 64 = 18446744073709551616" by simp_all
    have "?N < 18446744073709551616" using N unfolding p by linarith
    then show "?N mod 2 ^ 64 = ?N" unfolding p by (rule mod_less)
    show "\<not> 2 ^ 64 \<le> ?N * 4" using N unfolding p by linarith
  qed
  have lE: "length (fst ?E) = ?N" "length (snd ?E) = ?N"
    using length_evolve [of "replicate ?N 0" nRows nCols "initial_prev nRows nCols" ?c ?vel nIterations]
    by (simp_all add: length_initial_prev)
  have i1: "initialize prev_base next_base vel_base nRows nCols ?st0 = Some ?st1"
    by (rule initialize_eq [OF vg]) (simp_all add: new_arrays_def)
  have dv: "device_loop ?c nRows nCols nIterations ?st1 = Some ?st2"
    using device_loop_evolve [OF d(1,3,4,6), of ?st1 ?c nIterations]
    by (simp add: length_initial_prev)
  have i2: "initialize prev_base next_cpu vel_base nRows nCols ?st2 = Some ?st3"
    by (rule initialize_eq [OF vg]) (use lE in \<open>simp_all add: new_arrays_def\<close>)
  have cp: "iso_2dfd_iteration_cpu next_cpu prev_base vel_base ?c nRows nCols nIterations ?st3
          = Some ?st4"
    using iso_2dfd_iteration_cpu_evolve [OF d(1,3,4,6), of next_cpu prev_base vel_base ?st3 ?c
        nIterations]
    by (simp add: length_initial_prev)
  have "nRows < 2 ^ 64" "nCols < 2 ^ 64" using d(2,5) by simp_all
  then obtain s where s: "within_epsilon (fst ?E) (fst ?E) nRows nCols HALF_LENGTH 0.1 = Some s"
      "\<not> error s" "errFile s = []"
    using within_epsilon_same [OF d(1), of nCols "fst ?E" "0.1" HALF_LENGTH] lE by auto
  have nb: "?st4 next_base = fst ?E" "?st4 next_cpu = fst ?E" "?st2 next_base = fst ?E" by simp_all
  have run: "do {
         st \<leftarrow> initialize prev_base next_base vel_base nRows nCols ?st0;
         st \<leftarrow> device_loop ?c nRows nCols nIterations st;
         let snapshot = take ?N (st next_base);
         st \<leftarrow> initialize prev_base next_cpu vel_base nRows nCols st;
         st \<leftarrow> iso_2dfd_iteration_cpu next_cpu prev_base vel_base ?c nRows nCols
                nIterations st;
         s \<leftarrow> within_epsilon (st next_base) (st next_cpu) nRows nCols HALF_LENGTH 0.1;
         let snapshot_cpu = take ?N (st next_cpu);
         Some (Finished (if error s then 1 else 0)
                 \<lparr>reported_error = error s,
                  wavefield_snapshot = snapshot, wavefield_snapshot_cpu = snapshot_cpu,
                  error_diff = errFile s\<rparr>)
       } = Some (Finished (if error s then 1 else 0)
                 \<lparr>reported_error = error s, wavefield_snapshot = fst ?E,
                   wavefield_snapshot_cpu = fst ?E, error_diff = errFile s\<rparr>)"
    unfolding i1 bind.bind_lunit dv Let_def i2 cp nb s
    using lE(1) by simp
  have m: "main stoi fresh argv = Some (Finished (if error s then 1 else 0)
                 \<lparr>reported_error = error s, wavefield_snapshot = fst ?E,
                   wavefield_snapshot_cpu = fst ?E, error_diff = errFile s\<rparr>)"
    unfolding main_def args prod.case option.case Let_def conv
    apply (simp only: size if_False)
    using run unfolding Let_def .
  have p1: "initialize prev_base next_base vel_base nRows nCols ?st0
             \<bind> device_loop ?c nRows nCols nIterations = Some ?st2"
    unfolding i1 bind.bind_lunit dv ..
  have p2: "initialize prev_base next_cpu vel_base nRows nCols ?st2
             \<bind> iso_2dfd_iteration_cpu next_cpu prev_base vel_base ?c nRows nCols nIterations
           = Some ?st4"
    unfolding i2 bind.bind_lunit cp ..
  have s': "within_epsilon (?st4 next_base) (?st4 next_cpu) nRows nCols HALF_LENGTH 0.1 = Some s"
    unfolding nb by (rule s(1))
  have m': "main stoi fresh argv = Some (Finished (if error s then 1 else 0)
                 \<lparr>reported_error = error s, wavefield_snapshot = ?st2 next_base,
                   wavefield_snapshot_cpu = ?st4 next_cpu, error_diff = errFile s\<rparr>)"
    unfolding nb by (rule m)
  have F': "?st2 next_base = F" "?st4 next_base = F" "?st4 next_cpu = F"
    unfolding nb F by simp_all
  show ?thesis
    using p1 p2 s' m' F' s(2,3) by blast
qed

lemma main_finished:
  assumes args: "read_arg stoi argv 1 = Some (int nRows)" "read_arg stoi argv 2 = Some (int nCols)"
      "read_arg stoi argv 3 = Some (int nIterations)"
    and vg: "valid_grid nRows nCols" and it: "nIterations < 2 ^ 32"
    and F: "F = fst (evolve ((DT * DT) / (DXY * DXY)) nRows nCols
                 (replicate (nRows * nCols) (1500 * 1500)) nIterations
                 (replicate (nRows * nCols) 0, initial_prev nRows nCols))"
  shows "main stoi fresh argv =
         Some (Finished 0 \<lparr>reported_error = False, wavefield_snapshot = F,
                           wavefield_snapshot_cpu = F, error_diff = []\<rparr>)"
  using main_run [OF assms, of fresh] by auto

subsection \<open>Reading the arguments\<close>

lemma std_stoi_examples:
  "std_stoi ''3'' = Some 3" "std_stoi ''2'' = Some 2" "std_stoi ''1'' = Some 1"
  "std_stoi ''x'' = None" "std_stoi ''3abc'' = Some 3"
  by (simp_all add: std_stoi_def isspace_def isdigit_def decimal_def)


lemma std_stoi_minus_one: "std_stoi ''-1'' = Some (- 1)"
  by (simp add: std_stoi_def isspace_def isdigit_def decimal_def)

text \<open>
  A negative size is converted to a huge \<^verbatim>\<open>size_t\<close>; for \<^verbatim>\<open>iso2dfd -1 3 1\<close> the request for
  \<open>2^64 - 3\<close> values cannot be met and the program is terminated.
\<close>

lemma main_negative_size:
  "main std_stoi fresh [''iso2dfd'', ''-1'', ''3'', ''1''] = Some Aborted"
  by (simp add: main_def read_arg_def std_stoi_examples std_stoi_minus_one)

subsection \<open>Small grids, evaluated\<close>

lemma upt_12: "rev [0..<12] = [11, 10, 9, 8, 7, 6, 5, 4, 3, 2, 1, 0::nat]"
  by (simp add: upt_rec)

lemma upt_9: "[0..<9] = [0, 1, 2, 3, 4, 5, 6, 7, 8::nat]"
  by (simp add: upt_rec)

lemma upt_12_list: "[0..<12] = [0, 1, 2, 3, 4, 5, 6, 7, 8, 9, 10, 11::nat]"
  by (simp add: upt_rec)

lemma initial_prev_3_3:
  "initial_prev 3 3 = [wavelet ! 1, wavelet ! 1, 0, wavelet ! 1, wavelet ! 1, 0, 0, 0, 0]"
proof -
  have v: "valid_grid 3 3" by (simp add: valid_grid_def)
  have r: "replicate 9 (0::real) = [0, 0, 0, 0, 0, 0, 0, 0, 0]" by (simp add: numeral_eq_Suc)
  show ?thesis
    unfolding initial_prev_def upt_12 r
    by (simp add: wavelet_layer_def in_square_iff [OF v] upt_9)
qed

lemma sweep_3_3:
  "sweep c 3 3 vel nxt prv =
     [nxt ! 0, nxt ! 1, nxt ! 2, nxt ! 3, leapfrog nxt prv vel c 3 4, nxt ! 5, nxt ! 6, nxt ! 7, nxt ! 8]"
  by (simp add: sweep_def upt_9 interior_def HALF_LENGTH_def)

lemma evolve_3_3:
  "evolve ((DT * DT) / (DXY * DXY)) 3 3 (replicate 9 (1500 * 1500)) (Suc 0)
     (replicate 9 0, initial_prev 3 3)
   = ([0, 0, 0, 0, - (16212790367 / 200000000000), 0, 0, 0, 0],
      [- (41464937 / 1000000000), - (41464937 / 1000000000), 0,
       - (41464937 / 1000000000), - (41464937 / 1000000000), 0, 0, 0, 0])"
  "evolve ((DT * DT) / (DXY * DXY)) 3 3 (replicate 9 (1500 * 1500)) (Suc (Suc 0))
     (replicate 9 0, initial_prev 3 3)
   = ([0, 0, 0, 0, - (16212790367 / 200000000000), 0, 0, 0, 0],
      [- (41464937 / 1000000000), - (41464937 / 1000000000), 0,
       - (41464937 / 1000000000), - (2267344220097 / 20000000000000), 0, 0, 0, 0])"
proof -
  have r: "replicate 9 (x::real) = [x, x, x, x, x, x, x, x, x]" for x
    by (simp add: numeral_eq_Suc)
  show 1: "evolve ((DT * DT) / (DXY * DXY)) 3 3 (replicate 9 (1500 * 1500)) (Suc 0)
     (replicate 9 0, initial_prev 3 3)
   = ([0, 0, 0, 0, - (16212790367 / 200000000000), 0, 0, 0, 0],
      [- (41464937 / 1000000000), - (41464937 / 1000000000), 0,
       - (41464937 / 1000000000), - (41464937 / 1000000000), 0, 0, 0, 0])"
    by (simp add: initial_prev_3_3 sweep_3_3 leapfrog_def r wavelet_def DT_def DXY_def)
  show "evolve ((DT * DT) / (DXY * DXY)) 3 3 (replicate 9 (1500 * 1500)) (Suc (Suc 0))
     (replicate 9 0, initial_prev 3 3)
   = ([0, 0, 0, 0, - (16212790367 / 200000000000), 0, 0, 0, 0],
      [- (41464937 / 1000000000), - (41464937 / 1000000000), 0,
       - (41464937 / 1000000000), - (2267344220097 / 20000000000000), 0, 0, 0, 0])"
    unfolding evolve.simps(2) [of _ _ _ _ "Suc 0"] 1
    by (simp add: sweep_3_3 leapfrog_def r DT_def DXY_def)
qed

lemma compared_3_4: "filter (compared 3 4 1) [0..<3 * 4] = [4, 7]"
  by (simp add: upt_12_list compared_def)

lemma within_epsilon_3_4:
  assumes "length output = 12" "length reference = 12"
  shows "within_epsilon output reference 3 4 HALF_LENGTH delta =
    Some \<lparr>output_off = 12, reference_off = 12,
          error = (filter (\<lambda>p. delta < distance output reference p) [4, 7] \<noteq> []),
          norm2 = sqrt (distance output reference 4 * distance output reference 4 +
                        distance output reference 7 * distance output reference 7),
          errFile = map (diag_at output reference 3)
                      (filter (\<lambda>p. delta < distance output reference p) [4, 7])\<rparr>"
proof -
  have "within_epsilon output reference 3 4 1 delta
       = Some (let s = scan_after output reference 3 4 1 delta (3 * 4)
               in s\<lparr>norm2 := sqrt (norm2 s)\<rparr>)"
    by (rule within_epsilon_eq) (simp_all add: assms)
  then show ?thesis
    unfolding scan_after_def compared_3_4 HALF_LENGTH_def by (simp add: Let_def)
qed

lemma initial_prev_10_10:
  assumes "row < 10" "col < 10"
  shows "initial_prev 10 10 ! (row * 10 + col) =
     (if 4 \<le> row \<and> row < 6 \<and> 4 \<le> col \<and> col < 6 then wavelet ! 1
      else if 3 \<le> row \<and> row < 7 \<and> 3 \<le> col \<and> col < 7 then wavelet ! 2
      else if 2 \<le> row \<and> row < 8 \<and> 2 \<le> col \<and> col < 8 then wavelet ! 3
      else if 1 \<le> row \<and> row < 9 \<and> 1 \<le> col \<and> col < 9 then wavelet ! 4
      else wavelet ! 5)"
proof -
  have v: "valid_grid 10 10" by (simp add: valid_grid_def)
  show ?thesis
    unfolding initial_prev_nth [OF assms] upt_12
    using assms by (simp add: in_square_iff [OF v])
qed

section \<open>The claims of the specification\<close>

subsection \<open>Cross-mode equivalence\<close>

text \<open>
  C1. From the same initial fields the device loop (kernel dispatched over the whole range,
  roles of the two buffers alternating with the parity of the step) and the serial driver
  end with the same arrays, at every point and so at every interior point, and the
  validator called on the two results reports no error and writes no line.
\<close>

theorem cross_mode_equivalence:
  assumes "valid_grid nRows nCols"
    and "length next0 = nRows * nCols" "length prev0 = nRows * nCols" "length vel0 = nRows * nCols"
    and "st_d next_base = next0" "st_d prev_base = prev0" "st_d vel_base = vel0"
    and "st_c next_cpu = next0" "st_c prev_base = prev0" "st_c vel_base = vel0"
  shows "\<exists>out_d out_c s.
           device_loop dtDIVdxy nRows nCols nIterations st_d = Some out_d \<and>
           iso_2dfd_iteration_cpu next_cpu prev_base vel_base dtDIVdxy nRows nCols nIterations st_c
             = Some out_c \<and>
           out_d next_base = out_c next_cpu \<and> out_d prev_base = out_c prev_base \<and>
           within_epsilon (out_d next_base) (out_c next_cpu) nRows nCols HALF_LENGTH 0.1 = Some s \<and>
           \<not> error s \<and> errFile s = []"
proof -
  note d = valid_grid_dims [OF assms(1)]
  let ?E = "evolve dtDIVdxy nRows nCols vel0 nIterations (next0, prev0)"
  have dev: "device_loop dtDIVdxy nRows nCols nIterations st_d
      = Some (st_d(next_base := fst ?E, prev_base := snd ?E))"
    using device_loop_evolve [OF d(1,3,4,6), of st_d dtDIVdxy nIterations] assms(2-7) by simp
  have cpu: "iso_2dfd_iteration_cpu next_cpu prev_base vel_base dtDIVdxy nRows nCols nIterations st_c
      = Some (st_c(next_cpu := fst ?E, prev_base := snd ?E))"
    using iso_2dfd_iteration_cpu_evolve [OF d(1,3,4,6), of next_cpu prev_base vel_base st_c
        dtDIVdxy nIterations] assms(2-4,8-10) by simp
  have len: "length (fst ?E) = nRows * nCols"
    using length_evolve [OF assms(2,3)] by simp
  have "nRows < 2 ^ 64" "nCols < 2 ^ 64" using d(2,5) by simp_all
  then obtain s where "within_epsilon (fst ?E) (fst ?E) nRows nCols HALF_LENGTH 0.1 = Some s"
      "\<not> error s" "errFile s = []"
    using within_epsilon_same [OF d(1), of nCols "fst ?E" "0.1" HALF_LENGTH] len by auto
  then show ?thesis
    unfolding dev cpu by simp
qed

theorem cross_mode_equivalence_witness:
  "valid_grid 3 3 \<and> (\<exists>out_d out_c s.
           device_loop 1 3 3 2 (\<lambda>p. replicate 9 1) = Some out_d \<and>
           iso_2dfd_iteration_cpu next_cpu prev_base vel_base 1 3 3 2 (\<lambda>p. replicate 9 1)
             = Some out_c \<and>
           out_d next_base = out_c next_cpu \<and> out_d prev_base = out_c prev_base \<and>
           within_epsilon (out_d next_base) (out_c next_cpu) 3 3 HALF_LENGTH 0.1 = Some s \<and>
           \<not> error s \<and> errFile s = [])"
proof -
  have v: "valid_grid 3 3" by (simp add: valid_grid_def)
  show ?thesis
    using v cross_mode_equivalence [OF v, of "replicate 9 1" "replicate 9 1" "replicate 9 1"
        "\<lambda>p. replicate 9 1" "\<lambda>p. replicate 9 1" 1 2]
    by simp
qed

subsection \<open>The stencil update\<close>

text \<open>
  C2. At an interior point \<open>(row, col)\<close> with \<open>gid = row * nCols + col\<close>, one application
  of the device kernel and one pass through the body of the innermost loop of the serial
  driver both succeed and change the store in one place only: \<open>next[gid]\<close> becomes
  \<open>2 * prev[gid] - next[gid] + ((prev[gid+1] - 2 * prev[gid] + prev[gid-1]) +
  (prev[gid+nCols] - 2 * prev[gid] + prev[gid-nCols])) * dtDIVdxy * vel[gid]\<close>, the values on
  the right being those before the update (so the old \<open>next[gid]\<close> is read), with
  \<open>dtDIVdxy = (DT * DT) / (DXY * DXY)\<close>, \<open>DT = 0.002\<close> and \<open>DXY = 20\<close>.
\<close>

theorem stencil_update:
  assumes "valid_grid nRows nCols"
    and "interior nRows nCols row col" and "gid = row * nCols + col"
    and "length (st nxt) = nRows * nCols" "length (st prv) = nRows * nCols"
        "length (st vel) = nRows * nCols"
    and "dtDIVdxy = (DT * DT) / (DXY * DXY)"
    and "new = 2 * st prv ! gid - st nxt ! gid +
               ((st prv ! (gid + 1) - 2 * st prv ! gid + st prv ! (gid - 1)) +
                (st prv ! (gid + nCols) - 2 * st prv ! gid + st prv ! (gid - nCols)))
               * dtDIVdxy * st vel ! gid"
  shows "iso_2dfd_iteration_global (row, col) nxt prv vel dtDIVdxy nRows nCols st
           = Some (st(nxt := (st nxt)[gid := new])) \<and>
         cpu_point nxt prv vel dtDIVdxy nCols row col st
           = Some (st(nxt := (st nxt)[gid := new])) \<and>
         (st(nxt := (st nxt)[gid := new])) nxt ! gid = new \<and>
         DT = 0.002 \<and> DXY = 20 \<and> dtDIVdxy = 1 / 10 ^ 8"
proof -
  note d = valid_grid_dims [OF assms(1)]
  note b = interior_bounds [OF assms(2)]
  have g: "col + row * nCols = gid" using assms(3) by simp
  have cpu: "cpu_point nxt prv vel dtDIVdxy nCols row col st
           = Some (st(nxt := (st nxt)[gid := new]))"
    using cpu_point_eq [OF assms(4-6) b(1-3), of dtDIVdxy] assms(8)
    by (simp add: g leapfrog_def)
  have "iso_2dfd_iteration_global (row, col) nxt prv vel dtDIVdxy nRows nCols st
           = cpu_point nxt prv vel dtDIVdxy nCols row col st"
    using kernel_guarded [OF d(1,3,4,6), of row col nxt prv vel dtDIVdxy st] assms(2)
    by (simp add: guarded_point_def)
  then have dev: "iso_2dfd_iteration_global (row, col) nxt prv vel dtDIVdxy nRows nCols st
           = Some (st(nxt := (st nxt)[gid := new]))"
    using cpu by simp
  have "gid < length (st nxt)" using b(2) g assms(4) by simp
  then have val: "(st(nxt := (st nxt)[gid := new])) nxt ! gid = new" by simp
  have const: "DT = 0.002" "DXY = 20" "dtDIVdxy = 1 / 10 ^ 8"
    by (simp_all add: assms(7) DT_def DXY_def)
  show ?thesis using cpu dev val const by blast
qed

theorem stencil_update_witness:
  "valid_grid 3 3 \<and> interior 3 3 1 1 \<and>
   iso_2dfd_iteration_global (1, 1) next_base prev_base vel_base ((DT * DT) / (DXY * DXY)) 3 3
     (\<lambda>p. if p = prev_base then [0, 1, 0, 2, 3, 4, 0, 5, 0] else replicate 9 100)
     = Some ((\<lambda>p. if p = prev_base then [0, 1, 0, 2, 3, 4, 0, 5, 0] else replicate 9 100)
             (next_base := (replicate 9 100)[4 := - 94]))"
proof -
  have v: "valid_grid 3 3" by (simp add: valid_grid_def)
  have i: "interior 3 3 1 1" by (simp add: interior_def HALF_LENGTH_def)
  have n: "replicate 9 (100::real) = [100,100,100,100,100,100,100,100,100]"
    by (simp add: numeral_eq_Suc)
  show ?thesis
    using v i stencil_update [OF v i, of 4 "\<lambda>p. if p = prev_base then [0, 1, 0, 2, 3, 4, 0, 5, 0] else replicate 9 100"
        next_base prev_base vel_base "(DT * DT) / (DXY * DXY)" "- 94"]
    by (simp add: n DT_def DXY_def)
qed

subsection \<open>Halo invariance\<close>

text \<open>
  C3. A halo point is a point \<open>(row, col)\<close> of the grid that is not interior. Whatever
  the two buffers hold before the first step (in particular what \<^verbatim>\<open>initialize\<close> left
  there), after any number \<open>nIterations\<close> of sweeps the device loop and the serial driver
  both return, and in both buffers every halo point holds the value it had before.
\<close>

theorem halo_invariance:
  assumes "valid_grid nRows nCols"
    and "row < nRows" "col < nCols" "\<not> interior nRows nCols row col"
    and "gid = row * nCols + col"
    and "length (st next_base) = nRows * nCols" "length (st prev_base) = nRows * nCols"
        "length (st vel_base) = nRows * nCols" "length (st next_cpu) = nRows * nCols"
  shows "\<exists>out_d out_c.
           device_loop dtDIVdxy nRows nCols nIterations st = Some out_d \<and>
           out_d next_base ! gid = st next_base ! gid \<and>
           out_d prev_base ! gid = st prev_base ! gid \<and>
           iso_2dfd_iteration_cpu next_cpu prev_base vel_base dtDIVdxy nRows nCols nIterations st
             = Some out_c \<and>
           out_c next_cpu ! gid = st next_cpu ! gid \<and>
           out_c prev_base ! gid = st prev_base ! gid"
proof -
  note d = valid_grid_dims [OF assms(1)]
  have g: "gid < nRows * nCols" using assms(2,3,5) by (simp add: grid_index_less)
  have "gid div nCols = row" "gid mod nCols = col" using assms(3,5) by simp_all
  then have h: "\<not> interior nRows nCols (gid div nCols) (gid mod nCols)" using assms(4) by simp
  note dev = device_loop_evolve [OF d(1,3,4,6) assms(6,7,8), of dtDIVdxy nIterations]
  have cpu: "iso_2dfd_iteration_cpu next_cpu prev_base vel_base dtDIVdxy nRows nCols nIterations st
      = Some (st(next_cpu := fst (evolve dtDIVdxy nRows nCols (st vel_base) nIterations
                                   (st next_cpu, st prev_base)),
                 prev_base := snd (evolve dtDIVdxy nRows nCols (st vel_base) nIterations
                                   (st next_cpu, st prev_base))))"
    by (rule iso_2dfd_iteration_cpu_evolve [OF d(1,3,4,6)]) (use assms in simp_all)
  show ?thesis
    unfolding dev cpu using evolve_halo [OF g h] by simp
qed

theorem halo_invariance_witness:
  "valid_grid 3 3 \<and> \<not> interior 3 3 0 2 \<and> (\<exists>out_d out_c.
           device_loop 1 3 3 5 (\<lambda>p. [1, 2, 3, 4, 5, 6, 7, 8, 9]) = Some out_d \<and>
           out_d next_base ! 2 = 3 \<and> out_d prev_base ! 2 = 3 \<and>
           iso_2dfd_iteration_cpu next_cpu prev_base vel_base 1 3 3 5 (\<lambda>p. [1, 2, 3, 4, 5, 6, 7, 8, 9])
             = Some out_c \<and>
           out_c next_cpu ! 2 = 3 \<and> out_c prev_base ! 2 = 3)"
proof -
  have v: "valid_grid 3 3" by (simp add: valid_grid_def)
  have i: "\<not> interior 3 3 0 2" by (simp add: interior_def HALF_LENGTH_def)
  show ?thesis
    using v i halo_invariance [OF v _ _ i, of 2 "\<lambda>p. [1, 2, 3, 4, 5, 6, 7, 8, 9]" 1 5]
    by simp
qed

subsection \<open>Which array is dumped\<close>

text \<open>
  C4 (the code departs from the claim). For the command line \<^verbatim>\<open>iso2dfd 3 3 2\<close> the file
  \<^verbatim>\<open>wavefield_snapshot.bin\<close> and the serial dump hold the field after one step, the same
  arrays that \<^verbatim>\<open>iso2dfd 3 3 1\<close> dumps: the second step wrote its result into
  \<open>prev_base\<close>, whose cell \<open>(1, 1)\<close> differs from the dumped one, and \<open>prev_base\<close> is not
  the array that is written to the file.
\<close>

theorem snapshot_of_two_steps_is_stale:
  "main (\<lambda>s. if s = ''3'' then Some 3 else if s = ''2'' then Some 2
              else if s = ''1'' then Some 1 else None) fresh [''iso2dfd'', ''3'', ''3'', ''2'']
     = Some (Finished 0 \<lparr>reported_error = False,
               wavefield_snapshot = [0, 0, 0, 0, - (16212790367 / 200000000000), 0, 0, 0, 0],
               wavefield_snapshot_cpu = [0, 0, 0, 0, - (16212790367 / 200000000000), 0, 0, 0, 0],
               error_diff = []\<rparr>) \<and>
   main (\<lambda>s. if s = ''3'' then Some 3 else if s = ''2'' then Some 2
              else if s = ''1'' then Some 1 else None) fresh [''iso2dfd'', ''3'', ''3'', ''1'']
     = Some (Finished 0 \<lparr>reported_error = False,
               wavefield_snapshot = [0, 0, 0, 0, - (16212790367 / 200000000000), 0, 0, 0, 0],
               wavefield_snapshot_cpu = [0, 0, 0, 0, - (16212790367 / 200000000000), 0, 0, 0, 0],
               error_diff = []\<rparr>) \<and>
   (initialize prev_base next_base vel_base 3 3 (new_arrays fresh 9) \<bind>
      device_loop ((DT * DT) / (DXY * DXY)) 3 3 2)
     = Some ((new_arrays fresh 9)
         (vel_base := replicate 9 2250000,
          next_base := [0, 0, 0, 0, - (16212790367 / 200000000000), 0, 0, 0, 0],
          prev_base := [- (41464937 / 1000000000), - (41464937 / 1000000000), 0,
                        - (41464937 / 1000000000), - (2267344220097 / 20000000000000),
                        0, 0, 0, 0]))"
proof -
  let ?stoi = "\<lambda>s. if s = ''3'' then Some 3 else if s = ''2'' then Some 2
              else if s = ''1'' then Some (1::int) else None"
  have v: "valid_grid 3 3" by (simp add: valid_grid_def)
  note d = valid_grid_dims [OF v]
  have m2: "main ?stoi fresh [''iso2dfd'', ''3'', ''3'', ''2'']
     = Some (Finished 0 \<lparr>reported_error = False,
               wavefield_snapshot = [0, 0, 0, 0, - (16212790367 / 200000000000), 0, 0, 0, 0],
               wavefield_snapshot_cpu = [0, 0, 0, 0, - (16212790367 / 200000000000), 0, 0, 0, 0],
               error_diff = []\<rparr>)"
  proof (rule main_finished [where nRows = 3 and nCols = 3 and nIterations = 2])
    show "[0, 0, 0, 0, - (16212790367 / 200000000000), 0, 0, 0, 0] =
      fst (evolve (DT * DT / (DXY * DXY)) 3 3 (replicate (3 * 3) (1500 * 1500)) 2
           (replicate (3 * 3) 0, initial_prev 3 3))"
      using evolve_3_3(2) by (simp add: numeral_2_eq_2 del: evolve.simps)
  qed (simp_all add: read_arg_def v)
  have m1: "main ?stoi fresh [''iso2dfd'', ''3'', ''3'', ''1'']
     = Some (Finished 0 \<lparr>reported_error = False,
               wavefield_snapshot = [0, 0, 0, 0, - (16212790367 / 200000000000), 0, 0, 0, 0],
               wavefield_snapshot_cpu = [0, 0, 0, 0, - (16212790367 / 200000000000), 0, 0, 0, 0],
               error_diff = []\<rparr>)"
  proof (rule main_finished [where nRows = 3 and nCols = 3 and nIterations = 1])
    show "[0, 0, 0, 0, - (16212790367 / 200000000000), 0, 0, 0, 0] =
      fst (evolve (DT * DT / (DXY * DXY)) 3 3 (replicate (3 * 3) (1500 * 1500)) 1
           (replicate (3 * 3) 0, initial_prev 3 3))"
      using evolve_3_3(1) by (simp del: evolve.simps)
  qed (simp_all add: read_arg_def v)
  let ?st1 = "(new_arrays fresh 9)(prev_base := initial_prev 3 3, next_base := replicate (3 * 3) 0,
                   vel_base := replicate (3 * 3) (1500 * 1500))"
  have i1: "initialize prev_base next_base vel_base 3 3 (new_arrays fresh 9) = Some ?st1"
    using initialize_eq [OF v, of prev_base next_base vel_base "new_arrays fresh 9"]
    by (simp add: new_arrays_def)
  have dv: "device_loop ((DT * DT) / (DXY * DXY)) 3 3 2 ?st1
      = Some (?st1(next_base := fst (evolve ((DT * DT) / (DXY * DXY)) 3 3 (?st1 vel_base) 2
                                       (?st1 next_base, ?st1 prev_base)),
                   prev_base := snd (evolve ((DT * DT) / (DXY * DXY)) 3 3 (?st1 vel_base) 2
                                       (?st1 next_base, ?st1 prev_base))))"
    by (rule device_loop_evolve [OF d(1,3,4,6)]) (simp_all add: length_initial_prev)
  have st: "?st1 vel_base = replicate 9 (1500 * 1500)" "?st1 next_base = replicate 9 0"
    "?st1 prev_base = initial_prev 3 3" by simp_all
  have lp: "(initialize prev_base next_base vel_base 3 3 (new_arrays fresh 9) \<bind>
      device_loop ((DT * DT) / (DXY * DXY)) 3 3 2)
     = Some ((new_arrays fresh 9)
         (vel_base := replicate 9 2250000,
          next_base := [0, 0, 0, 0, - (16212790367 / 200000000000), 0, 0, 0, 0],
          prev_base := [- (41464937 / 1000000000), - (41464937 / 1000000000), 0,
                        - (41464937 / 1000000000), - (2267344220097 / 20000000000000),
                        0, 0, 0, 0]))"
    unfolding i1 bind.bind_lunit dv st
    using evolve_3_3(2) by (simp add: numeral_2_eq_2 fun_eq_iff del: evolve.simps)
  show ?thesis using m2 m1 lp by (intro conjI)
qed

subsection \<open>The validator\<close>

text \<open>
  C5 (the code departs from the claim). \<^verbatim>\<open>main\<close> passes \<open>nRows\<close> as \<open>dimx\<close>, the length of
  the inner loop, while a row of the grid has \<open>nCols\<close> cells. On a grid of 3 rows and 4
  columns the interior cells are 5 and 6 (row 1, columns 1 and 2). The call of \<^verbatim>\<open>main\<close>
  does not see a difference of 100 at cell 5: no error, no line, norm 0. It does report a
  difference of 1 at cell 4, which is the halo cell in row 1 and column 0, and the line
  gives the counters \<open>ix = 1\<close>, \<open>iy = 1\<close>.
\<close>

theorem validator_on_3_by_4_grid:
  "within_epsilon (replicate 12 0) ((replicate 12 0)[5 := 100]) 3 4 HALF_LENGTH 0.1
     = Some \<lparr>output_off = 12, reference_off = 12, error = False, norm2 = 0, errFile = []\<rparr> \<and>
   within_epsilon (replicate 12 0) ((replicate 12 0)[4 := 1]) 3 4 HALF_LENGTH 0.1
     = Some \<lparr>output_off = 12, reference_off = 12, error = True, norm2 = 1,
             errFile = [\<lparr>d_ix = 1, d_iy = 1, d_output = 0, d_reference = 1,
                          d_difference = 1\<rparr>]\<rparr> \<and>
   interior 3 4 1 1 \<and> 5 = 1 * 4 + (1::nat) \<and> \<not> interior 3 4 1 0 \<and> 4 = 1 * 4 + (0::nat)"
proof -
  have 1: "within_epsilon (replicate 12 0) ((replicate 12 0)[5 := 100]) 3 4 HALF_LENGTH 0.1
     = Some \<lparr>output_off = 12, reference_off = 12, error = False, norm2 = 0, errFile = []\<rparr>"
    by (subst within_epsilon_3_4) (simp_all add: distance_def)
  have 2: "within_epsilon (replicate 12 0) ((replicate 12 0)[4 := 1]) 3 4 HALF_LENGTH 0.1
     = Some \<lparr>output_off = 12, reference_off = 12, error = True, norm2 = 1,
             errFile = [\<lparr>d_ix = 1, d_iy = 1, d_output = 0, d_reference = 1,
                          d_difference = 1\<rparr>]\<rparr>"
    by (subst within_epsilon_3_4) (simp_all add: distance_def diag_at_def)
  show ?thesis
    using 1 2 by (simp add: interior_def HALF_LENGTH_def)
qed

text \<open>
  C6. The validator is given two arrays of \<open>dimx * dimy\<close> values that are equal at every
  position except \<open>q = iy * dimx + ix\<close>, where \<open>(ix, iy)\<close> is an interior cell of the scan
  (at least \<open>radius\<close> away from the ends of both loops) and the two values are exactly 0.2
  apart. With \<open>delta = 0.1\<close> it returns \<open>error = True\<close>, writes exactly one line, the
  one for \<open>(ix, iy)\<close>, and the norm is 0.2.
\<close>

theorem single_difference_detected:
  assumes "0 < dimx" "dimx < 2 ^ 64" "dimy < 2 ^ 64"
    and "length output = dimx * dimy" "length reference = dimx * dimy"
    and "radius \<le> ix" "ix + radius < dimx" "radius \<le> iy" "iy + radius < dimy"
    and "q = iy * dimx + ix"
    and "\<And>p. p < dimx * dimy \<Longrightarrow> p \<noteq> q \<Longrightarrow> output ! p = reference ! p"
    and "\<bar>reference ! q - output ! q\<bar> = 0.2"
  shows "within_epsilon output reference dimx dimy radius 0.1 =
         Some \<lparr>output_off = dimx * dimy, reference_off = dimx * dimy, error = True,
               norm2 = 0.2,
               errFile = [\<lparr>d_ix = ix, d_iy = iy, d_output = output ! q,
                            d_reference = reference ! q, d_difference = 0.2\<rparr>]\<rparr>"
proof -
  let ?N = "dimx * dimy"
  let ?d = "distance output reference"
  let ?cells = "filter (compared dimx dimy radius) [0..<?N]"
  have ix: "ix < dimx" and iy: "iy < dimy" using assms(7,9) by simp_all
  have qN: "q < ?N" using grid_index_less [OF iy ix] assms(10) by (simp add: mult.commute)
  have qm: "q mod dimx = ix" "q div dimx = iy" using ix assms(10) by simp_all
  have cq: "compared dimx dimy radius q" using assms(6-9) by (simp add: compared_def qm)
  have dq: "?d q = 0.2" using assms(12) by (simp add: distance_def)
  have d0: "?d p = 0" if "p < ?N" "p \<noteq> q" for p
    using assms(11) [OF that] by (simp add: distance_def)
  have bad: "filter (\<lambda>p. 0.1 < ?d p) ?cells = [q]"
  proof -
    have "filter (\<lambda>p. 0.1 < ?d p) ?cells
        = filter (\<lambda>p. compared dimx dimy radius p \<and> 0.1 < ?d p) [0..<?N]"
      by (simp add: conj_commute)
    also have "\<dots> = [q]"
    proof (rule filter_single [OF qN])
      fix p assume "p < ?N"
      then show "(compared dimx dimy radius p \<and> 0.1 < ?d p) \<longleftrightarrow> p = q"
        using cq dq d0 [of p] by (cases "p = q") auto
    qed
    finally show ?thesis .
  qed
  have "sum_list (map (\<lambda>p. ?d p * ?d p) ?cells) = sum (\<lambda>p. ?d p * ?d p) (set ?cells)"
    by (rule sum_list_distinct_conv_sum_set) simp
  also have "\<dots> = sum (\<lambda>p. if p = q then 0.04 else 0) (set ?cells)"
  proof (rule sum.cong [OF refl])
    fix p assume "p \<in> set ?cells"
    then have p: "p < ?N" by simp
    show "?d p * ?d p = (if p = q then 0.04 else 0)"
    proof (cases "p = q")
      case True
      then show ?thesis by (simp add: dq)
    next
      case False
      then show ?thesis by (simp add: d0 [OF p])
    qed
  qed
  also have "\<dots> = 0.04" using cq qN by simp
  finally have sq: "sum_list (map (\<lambda>p. ?d p * ?d p) ?cells) = 0.04" .
  have sa: "scan_after output reference dimx dimy radius 0.1 ?N =
      \<lparr>output_off = ?N, reference_off = ?N, error = True, norm2 = 0.04,
       errFile = [diag_at output reference dimx q]\<rparr>"
    unfolding scan_after_def Let_def bad sq by simp
  have rt: "sqrt (1 / 25) = 1 / 5"
    by (rule real_sqrt_unique) (simp_all add: power2_eq_square)
  have "within_epsilon output reference dimx dimy radius 0.1
      = Some (let s = scan_after output reference dimx dimy radius 0.1 ?N
              in s\<lparr>norm2 := sqrt (norm2 s)\<rparr>)"
    by (rule within_epsilon_eq [OF assms(1-3)]) (simp_all add: assms(4,5))
  then show ?thesis
    unfolding sa Let_def by (simp add: rt diag_at_def qm dq)
qed

theorem single_difference_detected_witness:
  "within_epsilon [1, 2, 3, 4, 5, 6, 7, 8, 9] [1, 2, 3, 4, 5.2, 6, 7, 8, 9] 3 3 1 0.1 =
         Some \<lparr>output_off = 9, reference_off = 9, error = True, norm2 = 0.2,
               errFile = [\<lparr>d_ix = 1, d_iy = 1, d_output = 5,
                            d_reference = 5.2, d_difference = 0.2\<rparr>]\<rparr>"
proof -
  have eq: "[1, 2, 3, 4, 5, 6, 7, 8, 9::real] ! p = [1, 2, 3, 4, 5.2, 6, 7, 8, 9] ! p"
    if "p < 3 * 3" "p \<noteq> 4" for p :: nat
  proof -
    from that(1) have "p = 0 \<or> p = 1 \<or> p = 2 \<or> p = 3 \<or> p = 4 \<or> p = 5 \<or> p = 6 \<or> p = 7 \<or> p = 8"
      by arith
    with that(2) show ?thesis by auto
  qed
  have "within_epsilon [1, 2, 3, 4, 5, 6, 7, 8, 9] [1, 2, 3, 4, 5.2, 6, 7, 8, 9] 3 3 1 0.1 =
         Some \<lparr>output_off = 3 * 3, reference_off = 3 * 3, error = True, norm2 = 0.2,
               errFile = [\<lparr>d_ix = 1, d_iy = 1, d_output = [1, 2, 3, 4, 5, 6, 7, 8, 9] ! 4,
                            d_reference = [1, 2, 3, 4, 5.2, 6, 7, 8, 9] ! 4,
                            d_difference = 0.2\<rparr>]\<rparr>"
    by (rule single_difference_detected [where ix = 1 and iy = 1 and q = 4, OF _ _ _ _ _ _ _ _ _ _ eq])
       simp_all
  then show ?thesis by simp
qed

subsection \<open>The exit status\<close>





subsection \<open>The indices written by initialize\<close>

text \<open>
  C10, as the code has it. The pass for \<open>s\<close> runs over the rows
  \<open>mixed_range (nRows div 2 - s) (nRows div 2 + s)\<close> and the columns
  \<open>mixed_range (nCols div 2 - s) (nCols div 2 + s)\<close>. For every grid of positive size with
  fewer than \<open>2^31\<close> cells, whatever its size, every row \<open>i\<close> and column \<open>k\<close> that a pass
  reaches satisfies \<open>i < nRows\<close> and \<open>k < nCols\<close>, the index \<open>i * nCols + k\<close> lies inside
  the array, and \<^verbatim>\<open>initialize\<close> returns without an access out of bounds.
\<close>

theorem initialize_in_bounds:
  assumes "valid_grid nRows nCols"
    and "ptr_prev \<noteq> ptr_next" "ptr_prev \<noteq> ptr_vel" "ptr_next \<noteq> ptr_vel"
    and "length (st ptr_prev) = nRows * nCols" "length (st ptr_next) = nRows * nCols"
        "length (st ptr_vel) = nRows * nCols"
  shows "initialize ptr_prev ptr_next ptr_vel nRows nCols st \<noteq> None \<and>
         (\<forall>s < 12.
            \<forall>i \<in> set (mixed_range (int (nRows div 2) - int s) (nRows div 2 + s)).
            \<forall>k \<in> set (mixed_range (int (nCols div 2) - int s) (nCols div 2 + s)).
              i < nRows \<and> k < nCols \<and> i * nCols + k < nRows * nCols)"
proof -
  have "i < nRows \<and> k < nCols \<and> i * nCols + k < nRows * nCols"
    if "s < 12" "i \<in> set (mixed_range (int (nRows div 2) - int s) (nRows div 2 + s))"
       "k \<in> set (mixed_range (int (nCols div 2) - int s) (nCols div 2 + s))" for s i k
  proof -
    have "in_square nRows nCols s i k" using that(2,3) by (simp add: in_square_def)
    then have "i < nRows" "k < nCols" using in_square_bounds [OF assms(1) that(1)] by simp_all
    then show ?thesis using grid_index_less by simp
  qed
  then show ?thesis
    using initialize_eq [OF assms] by simp
qed

theorem initialize_in_bounds_witness:
  "valid_grid 10 10 \<and>
   initialize prev_base next_base vel_base 10 10 (new_arrays blank 100) \<noteq> None \<and>
   9 \<in> set (mixed_range (int (10 div 2) - int 5) (10 div 2 + 5)) \<and> (9::nat) < 10"
proof -
  have v: "valid_grid 10 10" by (simp add: valid_grid_def)
  have "initialize prev_base next_base vel_base 10 10 (new_arrays blank 100) \<noteq> None"
    using initialize_in_bounds [OF v, of prev_base next_base vel_base "new_arrays blank 100"]
    by (simp add: new_arrays_def)
  then show ?thesis using v by (simp add: mixed_range_def)
qed

text \<open>
  The claim as stated fails on the grid of 10 by 10 points, which is smaller than 22 by
  22: the pass for \<open>s = 11\<close> has no iteration at all (its first row would be \<open>-6\<close>), and
  \<^verbatim>\<open>initialize\<close> returns the initialised store.
\<close>

theorem small_grid_counterexample:
  "mixed_range (int (10 div 2) - int 11) (10 div 2 + 11) = [] \<and>
   initialize prev_base next_base vel_base 10 10 (new_arrays blank 100) =
     Some ((new_arrays blank 100)
            (prev_base := initial_prev 10 10, next_base := replicate (10 * 10) 0,
             vel_base := replicate (10 * 10) (1500 * 1500))) \<and>
   \<not> (22 \<le> (10::nat) \<and> 22 \<le> (10::nat))"
proof -
  have v: "valid_grid 10 10" by (simp add: valid_grid_def)
  have "initialize prev_base next_base vel_base 10 10 (new_arrays blank 100) =
     Some ((new_arrays blank 100)
            (prev_base := initial_prev 10 10, next_base := replicate (10 * 10) 0,
             vel_base := replicate (10 * 10) (1500 * 1500)))"
    by (rule initialize_eq [OF v]) (simp_all add: new_arrays_def)
  then show ?thesis by (simp add: mixed_range_def)
qed

subsection \<open>Symmetry of the initial field\<close>

text \<open>
  C9, as the code has it. On a grid with an even number of rows and an even number of
  columns, the field \<open>prev\<close> that \<^verbatim>\<open>initialize\<close> produces is invariant under the rotation
  by 180 degrees about the centre of the grid.
\<close>

theorem initial_field_symmetric:
  assumes "valid_grid nRows nCols" "even nRows" "even nCols"
    and "ptr_prev \<noteq> ptr_next" "ptr_prev \<noteq> ptr_vel" "ptr_next \<noteq> ptr_vel"
    and "length (st ptr_prev) = nRows * nCols" "length (st ptr_next) = nRows * nCols"
        "length (st ptr_vel) = nRows * nCols"
    and "i < nRows" "j < nCols"
  shows "\<exists>st'. initialize ptr_prev ptr_next ptr_vel nRows nCols st = Some st' \<and>
           st' ptr_prev ! (i * nCols + j) = st' ptr_prev ! ((nRows - 1 - i) * nCols + (nCols - 1 - j))"
proof -
  have r: "nRows - 1 - i < nRows" "nCols - 1 - j < nCols" using assms(10,11) by simp_all
  have "\<forall>s\<in>set (rev [0..<12]). s < 12" by simp
  then have "fold (\<lambda>s v. if in_square nRows nCols s (nRows - 1 - i) (nCols - 1 - j) then wavelet ! s else v) ss (0::real)
      = fold (\<lambda>s v. if in_square nRows nCols s i j then wavelet ! s else v) ss 0"
    if "\<forall>s\<in>set ss. s < 12" for ss
    using that
  proof (induction ss rule: rev_induct)
    case Nil
    show ?case by simp
  next
    case (snoc s ss)
    then show ?case
      using in_square_rotate [OF assms(1) _ assms(2,3,10,11), of s] by simp
  qed
  then have "initial_prev nRows nCols ! ((nRows - 1 - i) * nCols + (nCols - 1 - j))
           = initial_prev nRows nCols ! (i * nCols + j)"
    unfolding initial_prev_nth [OF r] initial_prev_nth [OF assms(10,11)] by simp
  then show ?thesis
    using initialize_eq [OF assms(1,4-9)] assms(4,5) by simp
qed

theorem initial_field_symmetric_witness:
  "valid_grid 2 2 \<and> even (2::nat) \<and>
   (\<exists>st'. initialize prev_base next_base vel_base 2 2 (new_arrays blank 4) = Some st' \<and>
           st' prev_base ! (0 * 2 + 1) = st' prev_base ! ((2 - 1 - 0) * 2 + (2 - 1 - 1)))"
proof -
  have v: "valid_grid 2 2" by (simp add: valid_grid_def)
  show ?thesis
    using v initial_field_symmetric [OF v, of prev_base next_base vel_base "new_arrays blank 4" 0 1]
    by (simp add: new_arrays_def)
qed

text \<open>
  The claim as stated fails on the grid of 3 by 3 points: the only pass that writes is the
  one for \<open>s = 1\<close>, over the rows 0, 1 and the columns 0, 1, so that the cell \<open>(0, 0)\<close>
  holds \<open>wavelet[1]\<close> and its image \<open>(2, 2)\<close> under the rotation holds 0.
\<close>

theorem odd_grid_counterexample:
  "cell_of (initialize prev_base next_base vel_base 3 3 (new_arrays blank 9)) prev_base (0 * 3 + 0)
     \<noteq> cell_of (initialize prev_base next_base vel_base 3 3 (new_arrays blank 9)) prev_base
         ((3 - 1 - 0) * 3 + (3 - 1 - 0)) \<and>
   cell_of (initialize prev_base next_base vel_base 3 3 (new_arrays blank 9)) prev_base (0 * 3 + 0)
     = Some (- 0.041464937) \<and>
   cell_of (initialize prev_base next_base vel_base 3 3 (new_arrays blank 9)) prev_base
     ((3 - 1 - 0) * 3 + (3 - 1 - 0)) = Some 0"
proof -
  have v: "valid_grid 3 3" by (simp add: valid_grid_def)
  have "initialize prev_base next_base vel_base 3 3 (new_arrays blank 9) =
     Some ((new_arrays blank 9)
            (prev_base := initial_prev 3 3, next_base := replicate (3 * 3) 0,
             vel_base := replicate (3 * 3) (1500 * 1500)))"
    by (rule initialize_eq [OF v]) (simp_all add: new_arrays_def)
  then show ?thesis
    by (simp add: cell_of_def rd_def initial_prev_3_3 wavelet_def)
qed

subsection \<open>The run on the grid of 10 by 10 points\<close>

text \<open>
  C7, as the code has it. On the grid of 10 by 10 points \<^verbatim>\<open>initialize\<close> sets every cell of
  \<open>vel\<close> to \<open>1500 * 1500\<close> and every cell of \<open>next\<close> to 0; in \<open>prev\<close> the cell \<open>(5, 5)\<close>
  holds \<open>wavelet[1]\<close> (the passes for \<open>s = 5, \<dots>, 1\<close> write, those for \<open>s \<ge> 6\<close> and
  \<open>s = 0\<close> do not), and every halo cell holds \<open>wavelet[5]\<close>, since the pass for \<open>s = 5\<close>
  covers the whole grid. One sweep, by the device loop or by the serial driver, leaves
  \<open>prev\<close> as it is and sets \<open>next\<close> at \<open>(5, 5)\<close> to the value of the stencil formula on
  the initialised values of the cell and of its four neighbours, which is
  \<open>-0.08409571681\<close>; every halo cell of \<open>next\<close> holds 0.
\<close>

theorem run_10_by_10:
  "\<exists>st0 st1.
     initialize prev_base next_base vel_base 10 10 (new_arrays fresh 100) = Some st0 \<and>
     device_loop ((DT * DT) / (DXY * DXY)) 10 10 1 st0 = Some st1 \<and>
     iso_2dfd_iteration_cpu next_base prev_base vel_base ((DT * DT) / (DXY * DXY)) 10 10 1 st0
       = Some st1 \<and>
     st0 vel_base = replicate 100 (1500 * 1500) \<and> st0 next_base = replicate 100 0 \<and>
     st0 prev_base ! 55 = wavelet ! 1 \<and>
     st1 prev_base = st0 prev_base \<and>
     st1 next_base ! 55 =
       2 * st0 prev_base ! 55 - st0 next_base ! 55 +
       ((st0 prev_base ! 56 - 2 * st0 prev_base ! 55 + st0 prev_base ! 54) +
        (st0 prev_base ! 65 - 2 * st0 prev_base ! 55 + st0 prev_base ! 45))
       * ((DT * DT) / (DXY * DXY)) * st0 vel_base ! 55 \<and>
     st1 next_base ! 55 = - 0.08409571681 \<and>
     (\<forall>row < 10. \<forall>col < 10. \<not> interior 10 10 row col \<longrightarrow>
        st1 next_base ! (row * 10 + col) = 0 \<and>
        st0 prev_base ! (row * 10 + col) = wavelet ! 5 \<and>
        st1 prev_base ! (row * 10 + col) = wavelet ! 5)"
proof -
  let ?c = "(DT * DT) / (DXY * DXY)"
  let ?P = "initial_prev 10 10" and ?Z = "replicate 100 (0::real)"
  let ?V = "replicate 100 (1500 * 1500 :: real)"
  let ?st0 = "(new_arrays fresh 100)(prev_base := ?P, next_base := ?Z, vel_base := ?V)"
  let ?S = "sweep ?c 10 10 ?V ?Z ?P"
  let ?st1 = "?st0(next_base := ?S)"
  have v: "valid_grid 10 10" by (simp add: valid_grid_def)
  note d = valid_grid_dims [OF v]
  have lP: "length ?P = 100" by (simp add: length_initial_prev)
  have i0: "initialize prev_base next_base vel_base 10 10 (new_arrays fresh 100) = Some ?st0"
    using initialize_eq [OF v, of prev_base next_base vel_base "new_arrays fresh 100"]
    by (simp add: new_arrays_def)
  have ev: "evolve ?c 10 10 ?V 1 (?Z, ?P) = (?S, ?P)" by simp
  have dv: "device_loop ?c 10 10 1 ?st0 = Some ?st1"
    using device_loop_evolve [OF d(1,3,4,6), of ?st0 ?c 1] lP
    by (simp add: fun_eq_iff)
  have cp: "iso_2dfd_iteration_cpu next_base prev_base vel_base ?c 10 10 1 ?st0 = Some ?st1"
    using iso_2dfd_iteration_cpu_evolve [OF d(1,3,4,6), of next_base prev_base vel_base ?st0 ?c 1] lP
    by (simp add: fun_eq_iff)
  have p: "?P ! 55 = wavelet ! 1" "?P ! 56 = wavelet ! 2" "?P ! 54 = wavelet ! 1"
    "?P ! 65 = wavelet ! 2" "?P ! 45 = wavelet ! 1"
    using initial_prev_10_10 [of 5 5] initial_prev_10_10 [of 5 6] initial_prev_10_10 [of 5 4]
      initial_prev_10_10 [of 6 5] initial_prev_10_10 [of 4 5]
    by simp_all
  have s55: "?S ! 55 = leapfrog ?Z ?P ?V ?c 10 55"
    using sweep_nth [of 55 10 10 ?c ?V ?Z ?P] by (simp add: interior_def HALF_LENGTH_def)
  have halo: "?S ! (row * 10 + col) = 0 \<and> ?P ! (row * 10 + col) = wavelet ! 5"
    if "row < 10" "col < 10" "\<not> interior 10 10 row col" for row col
  proof -
    have g: "row * 10 + col < 10 * 10" using that(1,2) by (rule grid_index_less)
    have "(row * 10 + col) div 10 = row" "(row * 10 + col) mod 10 = col" using that(2) by simp_all
    then have "?S ! (row * 10 + col) = ?Z ! (row * 10 + col)"
      using sweep_nth [OF g, of ?c ?V ?Z ?P] that(3) by simp
    moreover have "?P ! (row * 10 + col) = wavelet ! 5"
      using that by (simp add: initial_prev_10_10 interior_def HALF_LENGTH_def) arith
    ultimately show ?thesis using g by simp
  qed
  have val: "leapfrog ?Z ?P ?V ?c 10 55 = - 0.08409571681"
    unfolding leapfrog_def using p by (simp add: wavelet_def DT_def DXY_def)
  have form: "?S ! 55 = 2 * ?P ! 55 - ?Z ! 55 +
       ((?P ! 56 - 2 * ?P ! 55 + ?P ! 54) + (?P ! 65 - 2 * ?P ! 55 + ?P ! 45)) * ?c * ?V ! 55"
    unfolding s55 leapfrog_def by simp
  show ?thesis
    apply (rule exI [of _ ?st0], rule exI [of _ ?st1])
    apply (intro conjI)
    using i0 dv cp p(1) form s55 val halo by simp_all
qed

theorem run_10_by_10_witness:
  "\<not> interior 10 10 0 3 \<and>
   (\<exists>st0 st1.
     initialize prev_base next_base vel_base 10 10 (new_arrays blank 100) = Some st0 \<and>
     device_loop ((DT * DT) / (DXY * DXY)) 10 10 1 st0 = Some st1 \<and>
     st1 next_base ! (0 * 10 + 3) = 0 \<and> st1 prev_base ! (0 * 10 + 3) = wavelet ! 5)"
proof -
  have i: "\<not> interior 10 10 0 3" by (simp add: interior_def HALF_LENGTH_def)
  obtain st0 st1 where
    "initialize prev_base next_base vel_base 10 10 (new_arrays blank 100) = Some st0"
    "device_loop ((DT * DT) / (DXY * DXY)) 10 10 1 st0 = Some st1"
    "\<forall>row < 10. \<forall>col < 10. \<not> interior 10 10 row col \<longrightarrow>
        st1 next_base ! (row * 10 + col) = 0 \<and>
        st0 prev_base ! (row * 10 + col) = wavelet ! 5 \<and>
        st1 prev_base ! (row * 10 + col) = wavelet ! 5"
    using run_10_by_10 [of blank] by blast
  moreover from this(3) [rule_format, of 0 3] i have
    "st1 next_base ! (0 * 10 + 3) = 0 \<and> st1 prev_base ! (0 * 10 + 3) = wavelet ! 5"
    by simp
  ultimately show ?thesis using i by blast
qed

text \<open>
  The claim as stated fails: after the initialisation and one sweep, the halo cell
  \<open>(0, 0)\<close> of \<open>prev\<close> holds \<open>wavelet[5] = 0.416998396\<close> and not 0, and the cell
  \<open>(5, 5)\<close> started from \<open>wavelet[1] = -0.041464937\<close>, which is not the peak of the wavelet.
\<close>

theorem halo_of_prev_counterexample:
  "cell_of (initialize prev_base next_base vel_base 10 10 (new_arrays blank 100) \<bind>
            device_loop ((DT * DT) / (DXY * DXY)) 10 10 1) prev_base (0 * 10 + 0)
     = Some 0.416998396 \<and>
   (0.416998396 :: real) \<noteq> 0 \<and> \<not> interior 10 10 0 0 \<and>
   cell_of (initialize prev_base next_base vel_base 10 10 (new_arrays blank 100))
      prev_base (5 * 10 + 5) = Some (- 0.041464937)"
proof -
  let ?c = "(DT * DT) / (DXY * DXY)"
  let ?P = "initial_prev 10 10" and ?Z = "replicate 100 (0::real)"
  let ?V = "replicate 100 (1500 * 1500 :: real)"
  let ?st0 = "(new_arrays blank 100)(prev_base := ?P, next_base := ?Z, vel_base := ?V)"
  have v: "valid_grid 10 10" by (simp add: valid_grid_def)
  note d = valid_grid_dims [OF v]
  have lP: "length ?P = 100" by (simp add: length_initial_prev)
  have i0: "initialize prev_base next_base vel_base 10 10 (new_arrays blank 100) = Some ?st0"
    using initialize_eq [OF v, of prev_base next_base vel_base "new_arrays blank 100"]
    by (simp add: new_arrays_def)
  have dv: "device_loop ?c 10 10 1 ?st0 = Some (?st0(next_base := sweep ?c 10 10 ?V ?Z ?P))"
    using device_loop_evolve [OF d(1,3,4,6), of ?st0 ?c 1] lP
    by (simp add: fun_eq_iff)
  have p: "?P ! (0 * 10 + 0) = wavelet ! 5" "?P ! (5 * 10 + 5) = wavelet ! 1"
    by (simp_all only: initial_prev_10_10) simp_all
  show ?thesis
    unfolding i0 bind.bind_lunit dv cell_of_def
    using p lP by (simp add: rd_def wavelet_def interior_def HALF_LENGTH_def)
qed

end
